theory Spec2Isabelle
  imports Main
begin

section \<open>The colour-sequencing simulator of server.cjs\<close>

text \<open>
  A shallow embedding of the class \<open>ColorSequencingSimulator\<close> of \<open>server.cjs\<close>.
  Every method becomes a function from the simulator state to the new state. The three
  sources of nondeterminism of the JavaScript are passed in as arguments:
  \<^item> \<open>Math.random()\<close>: a coin for each comparison \<open>Math.random() < p\<close>, and a natural
    number \<open>r\<close> for each draw \<open>Math.floor(Math.random() * n)\<close>, read as the index
    \<open>r mod n\<close> (the draw yields exactly the indices \<open>0 .. n - 1\<close>, and so does \<open>r mod n\<close>);
  \<^item> \<open>Date.now()\<close>: an integer number of milliseconds for each call;
  \<^item> the timer callback that \<open>simulateBreakdown\<close> registers with \<open>setTimeout\<close>: a
    function of its own, \<open>recoverLine\<close>, that the event loop runs later.
\<close>

subsection \<open>Data\<close>

text \<open>The colour tokens: the keys of \<open>COLOR_MAP\<close> and of \<open>COLOR_DISTRIBUTION\<close>. The cars
  are these tokens; \<open>reset\<close> creates every car from \<open>COLOR_DISTRIBUTION\<close>.\<close>

datatype color = C1 | C2 | C3 | C4 | C5 | C6 | C7 | C8 | C9 | C10 | C11 | C12

text \<open>The keys of \<open>this.ovens\<close> and of \<open>this.lines\<close>. Both objects are built by the
  literals in \<open>reset\<close>, and no method adds or removes a key, so each object is a function
  on its keys. A value that is a key or a colour, or \<open>null\<close> or \<open>undefined\<close>, is an
  \<open>option\<close>; the truth tests of the source on such values (\<open>if (lineId)\<close>,
  \<open>!this.mainLine.currentCar\<close>, \<open>nextLine && ...\<close>) ask whether the value is there, since
  no key and no colour token is the empty string.\<close>

datatype oven_id = O1 | O2

datatype lane_id = L1 | L2 | L3 | L4 | L5 | L6 | L7 | L8 | L9

datatype line_status = Active | Full | Unavailable

datatype oven_status = OvenActive | OvenStopped

record line =
  status :: line_status
  cars :: "color list"
  capacity :: nat
  oven :: oven_id
  lastBreakdown :: int

record oven_state =
  ovenStatus :: oven_status
  lastToggle :: int

record main_line =
  feedingFrom :: "lane_id option"
  currentCar :: "color option"

record simulator =
  isRunning :: bool
  isPaused :: bool
  totalCarsProcessed :: nat
  processedThisHour :: nat
  hourStartTime :: int
  recentSequence :: "color list"
  carBuffer :: "color list"
  ovens :: "oven_id \<Rightarrow> oven_state"
  lines :: "lane_id \<Rightarrow> line"
  mainLine :: main_line
  lastFedLine :: "lane_id option"
  activeAlerts :: nat

text \<open>\<open>Object.keys(this.lines)\<close>: the keys in insertion order.\<close>

definition lineIds :: "lane_id list" where
  "lineIds = [L1, L2, L3, L4, L5, L6, L7, L8, L9]"

definition COLOR_DISTRIBUTION :: "(color \<times> nat) list" where
  "COLOR_DISTRIBUTION =
     [(C1, 25), (C2, 20), (C3, 15), (C4, 15), (C5, 12), (C6, 8),
      (C7, 7), (C8, 6), (C9, 4), (C10, 3), (C11, 3), (C12, 2)]"

subsection \<open>Array helpers\<close>

text \<open>\<open>Array.prototype.sort\<close> with a comparator: a stable sort (insertion sort here;
  an element goes before the first one it does not compare greater than; the arrays
  sorted here have at most nine elements). For a
  comparator that subtracts keys it is the library's \<open>sort_key\<close> (lemma
  \<open>js_sort_sort_key\<close> below).\<close>

fun insert_by :: "('a \<Rightarrow> 'a \<Rightarrow> int) \<Rightarrow> 'a \<Rightarrow> 'a list \<Rightarrow> 'a list" where
  "insert_by cmp x [] = [x]"
| "insert_by cmp x (y # ys) =
     (if cmp x y \<le> 0 then x # y # ys else y # insert_by cmp x ys)"

definition js_sort :: "('a \<Rightarrow> 'a \<Rightarrow> int) \<Rightarrow> 'a list \<Rightarrow> 'a list" where
  "js_sort cmp xs = foldr (insert_by cmp) xs []"

text \<open>\<open>shuffleArray\<close>: for \<open>i\<close> from the last index down to 1, swap \<open>array[i]\<close> with
  \<open>array[j]\<close>, \<open>j = Math.floor(Math.random() * (i + 1))\<close>.\<close>

fun shuffleLoop :: "nat \<Rightarrow> (nat \<Rightarrow> nat) \<Rightarrow> 'a list \<Rightarrow> 'a list" where
  "shuffleLoop 0 rnd array = array"
| "shuffleLoop (Suc k) rnd array =
     (let i = Suc k; j = rnd i mod (i + 1)
      in shuffleLoop k rnd (array[i := array ! j, j := array ! i]))"

definition shuffleArray :: "(nat \<Rightarrow> nat) \<Rightarrow> 'a list \<Rightarrow> 'a list" where
  "shuffleArray rnd array = shuffleLoop (length array - 1) rnd array"

subsection \<open>reset, start, pause\<close>

record reset_input =
  resetNow :: int
  toggleNowO1 :: int
  toggleNowO2 :: int
  shuffleRnd :: "nat \<Rightarrow> nat"

definition initialLine :: "nat \<Rightarrow> oven_id \<Rightarrow> line" where
  "initialLine cap ov =
     \<lparr>status = Active, cars = [], capacity = cap, oven = ov, lastBreakdown = 0\<rparr>"

definition initialLines :: "lane_id \<Rightarrow> line" where
  "initialLines l =
     (case l of
        L1 \<Rightarrow> initialLine 14 O1 | L2 \<Rightarrow> initialLine 14 O1
      | L3 \<Rightarrow> initialLine 14 O1 | L4 \<Rightarrow> initialLine 14 O1
      | L5 \<Rightarrow> initialLine 16 O2 | L6 \<Rightarrow> initialLine 16 O2
      | L7 \<Rightarrow> initialLine 16 O2 | L8 \<Rightarrow> initialLine 16 O2
      | L9 \<Rightarrow> initialLine 16 O2)"

definition generatedCars :: "color list" where
  "generatedCars =
     foldl (\<lambda>buf (color, count). buf @ replicate count color) [] COLOR_DISTRIBUTION"

definition reset :: "reset_input \<Rightarrow> simulator" where
  "reset ri =
     \<lparr>isRunning = False,
      isPaused = False,
      totalCarsProcessed = 0,
      processedThisHour = 0,
      hourStartTime = resetNow ri,
      recentSequence = [],
      carBuffer = shuffleArray (shuffleRnd ri) generatedCars,
      ovens = (\<lambda>ov. case ov of
                 O1 \<Rightarrow> \<lparr>ovenStatus = OvenActive, lastToggle = toggleNowO1 ri\<rparr>
               | O2 \<Rightarrow> \<lparr>ovenStatus = OvenActive, lastToggle = toggleNowO2 ri\<rparr>),
      lines = initialLines,
      mainLine = \<lparr>feedingFrom = None, currentCar = None\<rparr>,
      lastFedLine = None,
      activeAlerts = 0\<rparr>"

definition start :: "simulator \<Rightarrow> simulator" where
  "start s = s\<lparr>isRunning := True, isPaused := False\<rparr>"

definition pause :: "simulator \<Rightarrow> simulator" where
  "pause s = s\<lparr>isPaused := True\<rparr>"

subsection \<open>Breakdown and recovery\<close>

definition setLine :: "lane_id \<Rightarrow> line \<Rightarrow> simulator \<Rightarrow> simulator" where
  "setLine l ln s = s\<lparr>lines := (lines s)(l := ln)\<rparr>"

definition simulateBreakdown :: "nat \<Rightarrow> int \<Rightarrow> simulator \<Rightarrow> simulator" where
  "simulateBreakdown r now s =
     (let activeLines = filter (\<lambda>l. status (lines s l) = Active) lineIds
      in if length activeLines > 2 then
           (let randomLine = activeLines ! (r mod length activeLines)
            in if now - lastBreakdown (lines s randomLine) > 15000
               then setLine randomLine
                      ((lines s randomLine)\<lparr>status := Unavailable, lastBreakdown := now\<rparr>) s
               else s)
         else s)"

text \<open>The callback given to \<open>setTimeout\<close> for the lane \<open>randomLine\<close>; the runtime
  calls it 8000 ms after the breakdown.\<close>

definition recoverLine :: "lane_id \<Rightarrow> simulator \<Rightarrow> simulator" where
  "recoverLine l s =
     (if status (lines s l) = Unavailable
      then setLine l ((lines s l)\<lparr>status := Active\<rparr>) s
      else s)"

subsection \<open>Allocation of incoming cars\<close>

definition getAvailableLines :: "oven_id \<Rightarrow> simulator \<Rightarrow> lane_id list" where
  "getAvailableLines ovenId s =
     filter (\<lambda>l. oven (lines s l) = ovenId \<and> status (lines s l) \<noteq> Unavailable) lineIds"

definition findBestLine :: "color \<Rightarrow> oven_id \<Rightarrow> simulator \<Rightarrow> lane_id option" where
  "findBestLine color ovenId s =
     (let availableLines = getAvailableLines ovenId s;
          lineWithSameColor =
            find (\<lambda>l. length (cars (lines s l)) > 0 \<and>
                       last (cars (lines s l)) = color \<and>
                       length (cars (lines s l)) < capacity (lines s l)) availableLines
      in case lineWithSameColor of
           Some l \<Rightarrow> Some l
         | None \<Rightarrow>
             (let notFullLines =
                    filter (\<lambda>l. length (cars (lines s l)) < capacity (lines s l)) availableLines
              in if length notFullLines = 0 then None
                 else Some (hd (js_sort
                        (\<lambda>a b. int (length (cars (lines s a))) - int (length (cars (lines s b))))
                        notFullLines))))"

definition pushCar :: "lane_id \<Rightarrow> color \<Rightarrow> simulator \<Rightarrow> simulator" where
  "pushCar l car s = setLine l ((lines s l)\<lparr>cars := cars (lines s l) @ [car]\<rparr>) s"

definition unshiftCar :: "color \<Rightarrow> simulator \<Rightarrow> simulator" where
  "unshiftCar car s = s\<lparr>carBuffer := car # carBuffer s\<rparr>"

definition alternateOven :: "oven_id \<Rightarrow> oven_id" where
  "alternateOven ovenId = (if ovenId = O1 then O2 else O1)"

text \<open>The body of the \<open>for\<close> loop of \<open>processIncomingCars\<close> after \<open>car\<close> has been
  shifted off the buffer; \<open>coin\<close> is \<open>Math.random() < 0.5\<close>.\<close>

definition placeCar :: "color \<Rightarrow> bool \<Rightarrow> simulator \<Rightarrow> simulator" where
  "placeCar car coin s =
     (let ovenId = (if coin then O1 else O2)
      in if ovenStatus (ovens s ovenId) \<noteq> OvenActive then
           (if ovenStatus (ovens s (alternateOven ovenId)) = OvenActive then
              (case findBestLine car (alternateOven ovenId) s of
                 Some l \<Rightarrow> pushCar l car s
               | None \<Rightarrow> unshiftCar car s)
            else unshiftCar car s)
         else
           (case findBestLine car ovenId s of
              None \<Rightarrow>
                (case findBestLine car (alternateOven ovenId) s of
                   Some l \<Rightarrow> pushCar l car s
                 | None \<Rightarrow>
                     (let s' = unshiftCar car s
                      in s'\<lparr>activeAlerts := activeAlerts s' + 1\<rparr>))
            | Some l \<Rightarrow> pushCar l car s))"

text \<open>One iteration of the loop. The loop runs \<open>min 2 (length carBuffer)\<close> times and
  every iteration takes one car and puts at most one back, so the buffer is never empty
  at \<open>shift\<close> (lemma \<open>incomingLoop_nonempty\<close> below); the first case is only there to
  make the function total.\<close>

definition incomingStep :: "bool \<Rightarrow> simulator \<Rightarrow> simulator" where
  "incomingStep coin s =
     (case carBuffer s of
        [] \<Rightarrow> s
      | car # rest \<Rightarrow> placeCar car coin (s\<lparr>carBuffer := rest\<rparr>))"

definition refreshStatus :: "lane_id \<Rightarrow> simulator \<Rightarrow> simulator" where
  "refreshStatus l s =
     (let line = lines s l
      in if length (cars line) \<ge> capacity line then setLine l (line\<lparr>status := Full\<rparr>) s
         else if status line = Full then setLine l (line\<lparr>status := Active\<rparr>) s
         else s)"

definition processIncomingCars :: "(nat \<Rightarrow> bool) \<Rightarrow> simulator \<Rightarrow> simulator" where
  "processIncomingCars coins s =
     (if length (carBuffer s) = 0 then s
      else
        (let carsToProcess = min 2 (length (carBuffer s));
             s' = fold (\<lambda>i. incomingStep (coins i)) [0..<carsToProcess] s
         in fold refreshStatus lineIds s'))"

subsection \<open>Release onto the main line\<close>

text \<open>\<open>colorGroups\<close>: an object keyed by colour; \<open>Object.entries\<close> lists its keys in
  insertion order (no colour token is an array index).\<close>

fun addToGroup :: "color \<Rightarrow> lane_id \<Rightarrow> (color \<times> lane_id list) list \<Rightarrow> (color \<times> lane_id list) list" where
  "addToGroup c l [] = [(c, [l])]"
| "addToGroup c l ((k, ls) # gs) =
     (if k = c then (k, ls @ [l]) # gs else (k, ls) # addToGroup c l gs)"

definition colorGroups :: "simulator \<Rightarrow> lane_id list \<Rightarrow> (color \<times> lane_id list) list" where
  "colorGroups s availableLines =
     foldl (\<lambda>groups l. addToGroup (hd (cars (lines s l))) l groups) [] availableLines"

definition groupTotal :: "simulator \<Rightarrow> (color \<times> lane_id list) \<Rightarrow> nat" where
  "groupTotal s g =
     foldl (\<lambda>sum l. sum + length (filter (\<lambda>c. c = fst g) (cars (lines s l)))) 0 (snd g)"

definition selectNextLine :: "simulator \<Rightarrow> lane_id option" where
  "selectNextLine s =
     (let availableLines =
            filter (\<lambda>l. status (lines s l) \<noteq> Unavailable \<and> length (cars (lines s l)) > 0) lineIds
      in if length availableLines = 0 then None
         else
           (let sortedColors =
                  js_sort (\<lambda>a b. int (groupTotal s b) - int (groupTotal s a))
                    (colorGroups s availableLines)
            in if length sortedColors > 0
               then (case snd (hd sortedColors) of [] \<Rightarrow> None | l # _ \<Rightarrow> Some l)
               else Some (hd availableLines)))"

definition processMainLine :: "simulator \<Rightarrow> simulator" where
  "processMainLine s =
     (case currentCar (mainLine s) of
        None \<Rightarrow>
          (case selectNextLine s of
             None \<Rightarrow> s
           | Some nextLine \<Rightarrow>
               (case cars (lines s nextLine) of
                  [] \<Rightarrow> s
                | car # rest \<Rightarrow>
                    (let s1 = setLine nextLine ((lines s nextLine)\<lparr>cars := rest\<rparr>) s;
                         s2 = s1\<lparr>mainLine := \<lparr>feedingFrom = Some nextLine, currentCar = Some car\<rparr>\<rparr>
                     in if status (lines s2 nextLine) = Full \<and>
                           length (cars (lines s2 nextLine)) < capacity (lines s2 nextLine)
                        then setLine nextLine ((lines s2 nextLine)\<lparr>status := Active\<rparr>) s2
                        else s2)))
      | Some car \<Rightarrow>
          (let pushed = recentSequence s @ [car];
               trimmed = (if length pushed > 15 then tl pushed else pushed)
           in s\<lparr>recentSequence := trimmed,
                totalCarsProcessed := totalCarsProcessed s + 1,
                processedThisHour := processedThisHour s + 1,
                mainLine := \<lparr>feedingFrom = None, currentCar = None\<rparr>\<rparr>))"

subsection \<open>tick\<close>

text \<open>The draws and clock readings of one tick: whether \<open>Math.random() < 0.02\<close>, the
  draw and the \<open>Date.now()\<close> of \<open>simulateBreakdown\<close>, the coin of the \<open>i\<close>-th iteration of
  the allocation loop, and the two \<open>Date.now()\<close> of the hourly reset.\<close>

record tick_input =
  breakdownRoll :: bool
  breakdownPick :: nat
  breakdownNow :: int
  ovenCoins :: "nat \<Rightarrow> bool"
  hourCheckNow :: int
  hourResetNow :: int

definition countAlert :: "line \<Rightarrow> simulator \<Rightarrow> simulator" where
  "countAlert line s =
     (if status line = Full \<or> status line = Unavailable
      then s\<lparr>activeAlerts := activeAlerts s + 1\<rparr> else s)"

definition recountAlerts :: "simulator \<Rightarrow> simulator" where
  "recountAlerts s =
     fold countAlert (map (lines s) lineIds) (s\<lparr>activeAlerts := 0\<rparr>)"

text \<open>\<open>(Date.now() - hourStartTime) / 1000 / 3600 >= 1\<close> holds exactly when the
  difference is at least 3600000 ms.\<close>

definition tick :: "tick_input \<Rightarrow> simulator \<Rightarrow> simulator" where
  "tick inp s =
     (if \<not> isRunning s \<or> isPaused s then s
      else
        (let s1 = (if breakdownRoll inp
                   then simulateBreakdown (breakdownPick inp) (breakdownNow inp) s else s);
             s2 = processIncomingCars (ovenCoins inp) s1;
             s3 = processMainLine s2;
             s4 = (if hourCheckNow inp - hourStartTime s3 \<ge> 3600000
                   then s3\<lparr>processedThisHour := 0, hourStartTime := hourResetNow inp\<rparr>
                   else s3)
         in recountAlerts s4))"

subsection \<open>The status snapshot\<close>

text \<open>\<open>getStatus\<close>. The throughput figure \<open>jph\<close> is floating-point arithmetic on
  \<open>processedThisHour\<close> and on the time since \<open>hourStartTime\<close>; it is kept as a
  function \<open>jphOf\<close> of these two numbers.\<close>

record line_view =
  viewStatus :: line_status
  viewCars :: "color list"
  viewCount :: nat
  viewCapacity :: nat

record 'j snapshot =
  snapJph :: 'j
  snapTotalCarsProcessed :: nat
  snapActiveAlerts :: nat
  snapRecentSequence :: "color list"
  snapOvens :: "oven_id \<Rightarrow> oven_state"
  snapLines :: "lane_id \<Rightarrow> line_view"
  snapFeedingFrom :: "lane_id option"
  snapCurrentCar :: "color option"
  snapIsRunning :: bool
  snapIsPaused :: bool

definition getStatus :: "(nat \<Rightarrow> int \<Rightarrow> 'j) \<Rightarrow> int \<Rightarrow> simulator \<Rightarrow> 'j snapshot" where
  "getStatus jphOf now s =
     \<lparr>snapJph = jphOf (processedThisHour s) (now - hourStartTime s),
      snapTotalCarsProcessed = totalCarsProcessed s,
      snapActiveAlerts = activeAlerts s,
      snapRecentSequence = recentSequence s,
      snapOvens = ovens s,
      snapLines = (\<lambda>l. \<lparr>viewStatus = status (lines s l),
                        viewCars = cars (lines s l),
                        viewCount = length (cars (lines s l)),
                        viewCapacity = capacity (lines s l)\<rparr>),
      snapFeedingFrom = feedingFrom (mainLine s),
      snapCurrentCar = currentCar (mainLine s),
      snapIsRunning = isRunning s,
      snapIsPaused = isPaused s\<rparr>"

subsection \<open>Executions\<close>

text \<open>What can happen to the simulator object: the three commands of the HTTP
  interface, the tick of \<open>setInterval\<close>, and a recovery timer firing.\<close>

datatype event =
    Reset reset_input
  | Start
  | Pause
  | Tick tick_input
  | Recover lane_id

fun exec :: "event \<Rightarrow> simulator \<Rightarrow> simulator" where
  "exec (Reset ri) s = reset ri"
| "exec Start s = start s"
| "exec Pause s = pause s"
| "exec (Tick inp) s = tick inp s"
| "exec (Recover l) s = recoverLine l s"

text \<open>The constructor calls \<open>reset\<close>; every later state comes from an event. The
  runtime fires a recovery timer only for a lane that broke down 8000 ms before; here a
  recovery may come for any lane at any moment, which includes every real execution.\<close>

inductive reachable :: "simulator \<Rightarrow> bool" where
  constructed: "reachable (reset ri)"
| after_event: "reachable s \<Longrightarrow> reachable (exec e s)"

text \<open>A sequence of events, run in order.\<close>

fun run :: "event list \<Rightarrow> simulator \<Rightarrow> simulator" where
  "run [] s = s"
| "run (e # es) s = run es (exec e s)"

fun isReset :: "event \<Rightarrow> bool" where
  "isReset (Reset ri) = True"
| "isReset e = False"

text \<open>The left-hand side of the conservation law: backlog, lanes, conveyor slot and
  processed cars.\<close>

definition carsInLanes :: "simulator \<Rightarrow> nat" where
  "carsInLanes s = sum_list (map (\<lambda>l. length (cars (lines s l))) lineIds)"

definition carsInSystem :: "simulator \<Rightarrow> nat" where
  "carsInSystem s =
     length (carBuffer s) + carsInLanes s
       + (if currentCar (mainLine s) \<noteq> None then 1 else 0)
       + totalCarsProcessed s"

subsection \<open>Notions of the claims\<close>

text \<open>For lane selection: a lane is eligible for an oven when it belongs to it and is not
  \<open>unavailable\<close>; it has spare capacity when it holds fewer cars than its capacity; it
  continues a colour when the car pushed last has that colour.\<close>

definition eligible :: "oven_id \<Rightarrow> simulator \<Rightarrow> lane_id \<Rightarrow> bool" where
  "eligible ov s l \<longleftrightarrow> oven (lines s l) = ov \<and> status (lines s l) \<noteq> Unavailable"

definition hasSpare :: "simulator \<Rightarrow> lane_id \<Rightarrow> bool" where
  "hasSpare s l \<longleftrightarrow> length (cars (lines s l)) < capacity (lines s l)"

definition continues :: "color \<Rightarrow> simulator \<Rightarrow> lane_id \<Rightarrow> bool" where
  "continues color s l \<longleftrightarrow> cars (lines s l) \<noteq> [] \<and> last (cars (lines s l)) = color"

text \<open>For release: the candidate lanes, the colour at the front of a lane's queue, and the
  run weight of a colour: the number of cars of that colour anywhere in the queues of the
  candidate lanes that have it at the front.\<close>

definition candidate :: "simulator \<Rightarrow> lane_id \<Rightarrow> bool" where
  "candidate s l \<longleftrightarrow> status (lines s l) \<noteq> Unavailable \<and> cars (lines s l) \<noteq> []"

definition frontColor :: "simulator \<Rightarrow> lane_id \<Rightarrow> color" where
  "frontColor s l = hd (cars (lines s l))"

definition runWeight :: "simulator \<Rightarrow> color \<Rightarrow> nat" where
  "runWeight s c =
     sum_list (map (\<lambda>l. length (filter (\<lambda>x. x = c) (cars (lines s l))))
       (filter (\<lambda>l. candidate s l \<and> frontColor s l = c) lineIds))"

subsection \<open>Auxiliary notions for the proofs\<close>

text \<open>The state of one lane between ticks: within capacity, and \<open>full\<close> exactly when at
  capacity.\<close>

definition laneOk :: "line \<Rightarrow> bool" where
  "laneOk ln \<longleftrightarrow>
     length (cars ln) \<le> capacity ln \<and> (status ln = Full \<longleftrightarrow> length (cars ln) = capacity ln)"

text \<open>The state of one lane inside the allocation loop, before the statuses are
  refreshed.\<close>

definition laneMid :: "line \<Rightarrow> bool" where
  "laneMid ln \<longleftrightarrow>
     length (cars ln) \<le> capacity ln \<and> (status ln = Unavailable \<longrightarrow> length (cars ln) < capacity ln)"

text \<open>What the status refresh at the end of \<open>processIncomingCars\<close> does to one lane, and
  what \<open>processMainLine\<close> does to the lane it takes a car from.\<close>

definition refreshed :: "line \<Rightarrow> line" where
  "refreshed ln =
     (if length (cars ln) \<ge> capacity ln then ln\<lparr>status := Full\<rparr>
      else if status ln = Full then ln\<lparr>status := Active\<rparr> else ln)"

definition popped :: "line \<Rightarrow> color list \<Rightarrow> line" where
  "popped ln rest =
     ln\<lparr>cars := rest,
        status := (if status ln = Full \<and> length rest < capacity ln then Active else status ln)\<rparr>"

text \<open>The keys of an object in insertion order: each element at its first occurrence.\<close>

definition firstSeen :: "'a list \<Rightarrow> 'a list" where
  "firstSeen xs = rev (remdups (rev xs))"

subsection \<open>Sample inputs\<close>

text \<open>A reset whose shuffle swaps every element with itself, and a tick whose breakdown
  roll succeeds and picks the first active lane; its first car draws oven O1, its second
  oven O2.\<close>

definition exampleReset :: reset_input where
  "exampleReset =
     \<lparr>resetNow = 1700000000000, toggleNowO1 = 1700000000000, toggleNowO2 = 1700000000000,
      shuffleRnd = id\<rparr>"

definition exampleTick :: tick_input where
  "exampleTick =
     \<lparr>breakdownRoll = True, breakdownPick = 0, breakdownNow = 1700000100000, ovenCoins = even,
      hourCheckNow = 1700000100000, hourResetNow = 1700000100000\<rparr>"

text \<open>A tick one second after \<open>exampleTick\<close>, with the same draws.\<close>

definition laterTick :: tick_input where
  "laterTick =
     \<lparr>breakdownRoll = True, breakdownPick = 0, breakdownNow = 1700000101000, ovenCoins = even,
      hourCheckNow = 1700000101000, hourResetNow = 1700000101000\<rparr>"

text \<open>A running simulator in which lane L8 is at capacity.\<close>

definition fullLaneState :: simulator where
  "fullLaneState =
     (start (reset exampleReset))
       \<lparr>carBuffer := [C1, C2],
        lines := initialLines
          (L8 := \<lparr>status = Full, cars = replicate 16 C3, capacity = 16, oven = O2,
                  lastBreakdown = 0\<rparr>)\<rparr>"

text \<open>Two lanes of oven O1 hold cars: L1 holds one C3, L3 holds two C1.\<close>

definition twoLaneState :: simulator where
  "twoLaneState =
     (start (reset exampleReset))
       \<lparr>lines := initialLines
          (L1 := \<lparr>status = Active, cars = [C3], capacity = 14, oven = O1, lastBreakdown = 0\<rparr>,
           L3 := \<lparr>status = Active, cars = [C1, C1], capacity = 14, oven = O1,
                  lastBreakdown = 0\<rparr>)\<rparr>"

text \<open>Lanes with queues of several colours; L1 is broken down.\<close>

definition threeLaneState :: simulator where
  "threeLaneState =
     (start (reset exampleReset))
       \<lparr>lines := initialLines
          (L1 := \<lparr>status = Unavailable, cars = [C2, C2, C2, C2], capacity = 14, oven = O1,
                  lastBreakdown = 1700000090000\<rparr>,
           L2 := \<lparr>status = Active, cars = [C3, C1, C1, C1], capacity = 14, oven = O1,
                  lastBreakdown = 0\<rparr>,
           L4 := \<lparr>status = Active, cars = [C1, C3, C3], capacity = 14, oven = O1,
                  lastBreakdown = 0\<rparr>,
           L6 := \<lparr>status = Active, cars = [C1, C1, C5], capacity = 16, oven = O2,
                  lastBreakdown = 0\<rparr>,
           L7 := \<lparr>status = Active, cars = [C5, C5, C5], capacity = 16, oven = O2,
                  lastBreakdown = 0\<rparr>)\<rparr>"

text \<open>No lane can take a car: seven lanes are broken down and two are full. Two cars wait
  in the backlog.\<close>

definition brokenLane :: "nat \<Rightarrow> oven_id \<Rightarrow> line" where
  "brokenLane cap ov =
     \<lparr>status = Unavailable, cars = [], capacity = cap, oven = ov, lastBreakdown = 1700000095000\<rparr>"

definition fullLane :: line where
  "fullLane =
     \<lparr>status = Full, cars = replicate 16 C3, capacity = 16, oven = O2, lastBreakdown = 0\<rparr>"

definition blockedState :: simulator where
  "blockedState =
     (start (reset exampleReset))
       \<lparr>carBuffer := [C1, C2],
        lines := initialLines
          (L1 := brokenLane 14 O1, L2 := brokenLane 14 O1, L3 := brokenLane 14 O1,
           L4 := brokenLane 14 O1, L5 := brokenLane 16 O2, L6 := brokenLane 16 O2,
           L7 := brokenLane 16 O2, L8 := fullLane, L9 := fullLane)\<rparr>"

text \<open>As \<open>blockedState\<close>, but lane L1 works and has room for one more car.\<close>

definition oneSlotState :: simulator where
  "oneSlotState =
     blockedState
       \<lparr>lines := (lines blockedState)
          (L1 := \<lparr>status = Active, cars = replicate 13 C4, capacity = 14, oven = O1,
                  lastBreakdown = 0\<rparr>)\<rparr>"

section \<open>Properties\<close>

subsection \<open>Lanes and states\<close>

lemma distinct_lineIds: "distinct lineIds"
  by (simp add: lineIds_def)

lemma set_lineIds: "set lineIds = UNIV"
proof -
  have "l \<in> set lineIds" for l by (cases l) (simp_all add: lineIds_def)
  then show ?thesis by auto
qed

lemma in_lineIds [simp]: "l \<in> set lineIds"
  by (simp add: set_lineIds)

subsection \<open>setLine\<close>

lemma setLine_simps [simp]:
  "lines (setLine l ln s) = (lines s)(l := ln)"
  "carBuffer (setLine l ln s) = carBuffer s"
  "mainLine (setLine l ln s) = mainLine s"
  "totalCarsProcessed (setLine l ln s) = totalCarsProcessed s"
  "processedThisHour (setLine l ln s) = processedThisHour s"
  "recentSequence (setLine l ln s) = recentSequence s"
  "activeAlerts (setLine l ln s) = activeAlerts s"
  "ovens (setLine l ln s) = ovens s"
  "isRunning (setLine l ln s) = isRunning s"
  "isPaused (setLine l ln s) = isPaused s"
  "hourStartTime (setLine l ln s) = hourStartTime s"
  "lastFedLine (setLine l ln s) = lastFedLine s"
  by (simp_all add: setLine_def)

lemma sum_list_upd:
  "distinct xs \<Longrightarrow> l \<in> set xs \<Longrightarrow>
   sum_list (map (f(l := v)) xs) + f l = sum_list (map f xs) + (v::nat)"
  by (induction xs) auto

lemma sum_list_upd_notin:
  "l \<notin> set xs \<Longrightarrow> sum_list (map (f(l := v)) xs) = sum_list (map f xs)"
  by (induction xs) auto

lemma carsInLanes_setLine:
  "carsInLanes (setLine l ln s) + length (cars (lines s l)) = carsInLanes s + length (cars ln)"
proof -
  have "(\<lambda>k. length (cars (((lines s)(l := ln)) k))) = (\<lambda>k. length (cars (lines s k)))(l := length (cars ln))"
    by (rule ext) simp
  then show ?thesis
    using sum_list_upd [OF distinct_lineIds, of l "\<lambda>k. length (cars (lines s k))" "length (cars ln)"]
    by (simp add: carsInLanes_def)
qed

lemma carsInLanes_cong:
  "(\<And>l. length (cars (lines s' l)) = length (cars (lines s l))) \<Longrightarrow> carsInLanes s' = carsInLanes s"
  by (simp add: carsInLanes_def)

subsection \<open>simulateBreakdown, recoverLine\<close>

lemma simulateBreakdown_cases:
  "simulateBreakdown r now s = s \<or>
   (\<exists>l. status (lines s l) = Active \<and> now - lastBreakdown (lines s l) > 15000 \<and>
        simulateBreakdown r now s =
          setLine l ((lines s l)\<lparr>status := Unavailable, lastBreakdown := now\<rparr>) s)"
proof (cases "length (filter (\<lambda>l. status (lines s l) = Active) lineIds) > 2")
  case False
  then show ?thesis by (simp add: simulateBreakdown_def)
next
  case True
  let ?act = "filter (\<lambda>l. status (lines s l) = Active) lineIds"
  let ?l = "?act ! (r mod length ?act)"
  from True have "0 < length ?act" by linarith
  then have "r mod length ?act < length ?act" by (rule mod_less_divisor)
  then have "?l \<in> set ?act" by (rule nth_mem)
  then have act: "status (lines s ?l) = Active" by simp
  show ?thesis
  proof (cases "now - lastBreakdown (lines s ?l) > 15000")
    case False
    with True show ?thesis by (simp add: simulateBreakdown_def Let_def)
  next
    case big: True
    have "simulateBreakdown r now s =
            setLine ?l ((lines s ?l)\<lparr>status := Unavailable, lastBreakdown := now\<rparr>) s"
      using True big by (simp add: simulateBreakdown_def Let_def)
    with act big show ?thesis by blast
  qed
qed

lemma simulateBreakdown_laneOk:
  assumes "\<And>l. laneOk (lines s l)"
  shows "laneOk (lines (simulateBreakdown r now s) l)"
proof -
  consider "simulateBreakdown r now s = s"
    | k where "status (lines s k) = Active"
        "simulateBreakdown r now s =
          setLine k ((lines s k)\<lparr>status := Unavailable, lastBreakdown := now\<rparr>) s"
    using simulateBreakdown_cases [of r now s] by blast
  then show ?thesis
  proof cases
    case 1
    then show ?thesis by (simp add: assms)
  next
    case 2
    then show ?thesis using assms [of l] assms [of k] by (simp add: laneOk_def)
  qed
qed


subsection \<open>js_sort\<close>

lemma set_insert_by [simp]: "set (insert_by cmp x ys) = insert x (set ys)"
  by (induction ys) auto

lemma set_js_sort [simp]: "set (js_sort cmp xs) = set xs"
  by (induction xs) (simp_all add: js_sort_def)

lemma js_sort_Cons: "js_sort cmp (x # xs) = insert_by cmp x (js_sort cmp xs)"
  by (simp add: js_sort_def)

lemma js_sort_eq_Nil [simp]: "js_sort cmp xs = [] \<longleftrightarrow> xs = []"
  using set_js_sort [of cmp xs] by (metis set_empty)

lemma hd_insert_by:
  "hd (insert_by cmp x ys) = (if ys = [] \<or> cmp x (hd ys) \<le> 0 then x else hd ys)"
  by (cases ys) auto

lemma hd_js_sort_in: "xs \<noteq> [] \<Longrightarrow> hd (js_sort cmp xs) \<in> set xs"
  using hd_in_set [of "js_sort cmp xs"] by simp

lemma hd_js_sort_first_min:
  fixes key :: "'a \<Rightarrow> int"
  assumes "xs \<noteq> []"
  shows "\<exists>pre post. xs = pre @ hd (js_sort (\<lambda>a b. key a - key b) xs) # post \<and>
           (\<forall>y\<in>set pre. key (hd (js_sort (\<lambda>a b. key a - key b) xs)) < key y) \<and>
           (\<forall>y\<in>set post. key (hd (js_sort (\<lambda>a b. key a - key b) xs)) \<le> key y)"
  using assms
proof (induction xs)
  case Nil
  then show ?case by simp
next
  case (Cons x xs)
  let ?cmp = "\<lambda>a b. key a - key b"
  show ?case
  proof (cases "xs = []")
    case True
    then have "hd (js_sort ?cmp (x # xs)) = x" by (simp add: js_sort_def)
    moreover have "x # xs = [] @ x # [] \<and> (\<forall>y\<in>set []. key x < key y) \<and>
        (\<forall>y\<in>set []. key x \<le> key y)"
      using True by simp
    ultimately show ?thesis by metis
  next
    case False
    let ?m = "hd (js_sort ?cmp xs)"
    from Cons.IH [OF False] obtain pre post where
      split: "xs = pre @ ?m # post" and
      pre: "\<forall>y\<in>set pre. key ?m < key y" and
      post: "\<forall>y\<in>set post. key ?m \<le> key y"
      by blast
    show ?thesis
    proof (cases "key x \<le> key ?m")
      case True
      with False have hd: "hd (js_sort ?cmp (x # xs)) = x"
        by (simp add: js_sort_Cons hd_insert_by)
      have "\<forall>y\<in>set xs. key x \<le> key y"
      proof
        fix y assume "y \<in> set xs"
        then have "y \<in> set pre \<or> y = ?m \<or> y \<in> set post"
          using split by (metis Un_iff set_ConsD set_append)
        with pre post True show "key x \<le> key y" by force
      qed
      then have "x # xs = [] @ x # xs \<and> (\<forall>y\<in>set []. key x < key y) \<and> (\<forall>y\<in>set xs. key x \<le> key y)"
        by simp
      then show ?thesis unfolding hd by blast
    next
      case gt: False
      with False have hd: "hd (js_sort ?cmp (x # xs)) = ?m"
        by (simp add: js_sort_Cons hd_insert_by)
      have "x # xs = (x # pre) @ ?m # post \<and> (\<forall>y\<in>set (x # pre). key ?m < key y) \<and>
            (\<forall>y\<in>set post. key ?m \<le> key y)"
        using split pre post gt by auto
      then show ?thesis unfolding hd by blast
    qed
  qed
qed

subsection \<open>findBestLine\<close>

lemma findBestLine_Some:
  assumes "findBestLine c ov s = Some l"
  shows "l \<in> set (getAvailableLines ov s) \<and> length (cars (lines s l)) < capacity (lines s l)"
proof -
  let ?avail = "getAvailableLines ov s"
  let ?P = "\<lambda>l. length (cars (lines s l)) > 0 \<and> last (cars (lines s l)) = c \<and>
                 length (cars (lines s l)) < capacity (lines s l)"
  let ?nf = "filter (\<lambda>l. length (cars (lines s l)) < capacity (lines s l)) ?avail"
  let ?cmp = "\<lambda>a b. int (length (cars (lines s a))) - int (length (cars (lines s b)))"
  show ?thesis
  proof (cases "find ?P ?avail")
    case (Some k)
    with assms have "k = l" by (simp add: findBestLine_def)
    with Some show ?thesis by (auto simp: find_Some_iff)
  next
    case None
    with assms have ne: "?nf \<noteq> []" and l: "l = hd (js_sort ?cmp ?nf)"
      by (auto simp: findBestLine_def Let_def split: if_splits)
    from hd_js_sort_in [OF ne, of ?cmp] l have "l \<in> set ?nf" by simp
    then show ?thesis by simp
  qed
qed

lemma getAvailableLines_iff:
  "l \<in> set (getAvailableLines ov s) \<longleftrightarrow> oven (lines s l) = ov \<and> status (lines s l) \<noteq> Unavailable"
  by (simp add: getAvailableLines_def)


lemma findBestLine_lines_cong:
  assumes "lines s' = lines s"
  shows "findBestLine c ov s' = findBestLine c ov s"
  unfolding findBestLine_def getAvailableLines_def assms by (rule refl)

subsection \<open>placeCar and the allocation loop\<close>

lemma placeCar_cases:
  "placeCar car coin s = unshiftCar car s \<or>
   placeCar car coin s = (unshiftCar car s)\<lparr>activeAlerts := activeAlerts s + 1\<rparr> \<or>
   (\<exists>l ov. findBestLine car ov s = Some l \<and> placeCar car coin s = pushCar l car s)"
  by (auto simp: placeCar_def Let_def unshiftCar_def split: option.splits)

lemma carsInSystem_unshiftCar [simp]:
  "carsInSystem (unshiftCar car s) = carsInSystem s + 1"
  by (simp add: carsInSystem_def carsInLanes_def unshiftCar_def)

lemma carsInSystem_activeAlerts [simp]:
  "carsInSystem (s\<lparr>activeAlerts := k\<rparr>) = carsInSystem s"
  by (simp add: carsInSystem_def carsInLanes_def)

lemma carsInSystem_pushCar [simp]:
  "carsInSystem (pushCar l car s) = carsInSystem s + 1"
  using carsInLanes_setLine [of l "(lines s l)\<lparr>cars := cars (lines s l) @ [car]\<rparr>" s]
  by (simp add: carsInSystem_def pushCar_def)

lemma carsInSystem_placeCar: "carsInSystem (placeCar car coin s) = carsInSystem s + 1"
  using placeCar_cases [of car coin s] by auto

lemma lines_unshiftCar [simp]: "lines (unshiftCar car s) = lines s"
  by (simp add: unshiftCar_def)

lemma lines_placeCar:
  "lines (placeCar car coin s) = lines s \<or>
   (\<exists>l ov. findBestLine car ov s = Some l \<and>
      lines (placeCar car coin s) = (lines s)(l := (lines s l)\<lparr>cars := cars (lines s l) @ [car]\<rparr>))"
  using placeCar_cases [of car coin s] by (auto simp: pushCar_def)

lemma placeCar_laneMid:
  assumes "\<And>l. laneMid (lines s l)"
  shows "laneMid (lines (placeCar car coin s) l)"
proof -
  consider "lines (placeCar car coin s) = lines s"
    | k ov where "findBestLine car ov s = Some k"
        "lines (placeCar car coin s) = (lines s)(k := (lines s k)\<lparr>cars := cars (lines s k) @ [car]\<rparr>)"
    using lines_placeCar [of car coin s] by blast
  then show ?thesis
  proof cases
    case 1
    then show ?thesis by (simp add: assms)
  next
    case 2
    from findBestLine_Some [OF 2(1)]
    have "status (lines s k) \<noteq> Unavailable" "length (cars (lines s k)) < capacity (lines s k)"
      by (simp_all add: getAvailableLines_iff)
    with 2(2) assms [of l] show ?thesis by (simp add: laneMid_def)
  qed
qed

lemma carsInSystem_carBuffer_Cons:
  "carBuffer s = car # rest \<Longrightarrow> carsInSystem (s\<lparr>carBuffer := rest\<rparr>) + 1 = carsInSystem s"
  by (simp add: carsInSystem_def carsInLanes_def)

lemma carsInSystem_incomingStep: "carsInSystem (incomingStep coin s) = carsInSystem s"
proof (cases "carBuffer s")
  case Nil
  then show ?thesis by (simp add: incomingStep_def)
next
  case (Cons car rest)
  then show ?thesis
    using carsInSystem_carBuffer_Cons [OF Cons] carsInSystem_placeCar [of car coin "s\<lparr>carBuffer := rest\<rparr>"]
    by (simp add: incomingStep_def)
qed

lemma incomingStep_laneMid:
  assumes "\<And>l. laneMid (lines s l)"
  shows "laneMid (lines (incomingStep coin s) l)"
proof (cases "carBuffer s")
  case Nil
  then show ?thesis by (simp add: incomingStep_def assms)
next
  case (Cons car rest)
  have "laneMid (lines (placeCar car coin (s\<lparr>carBuffer := rest\<rparr>)) l)"
    by (rule placeCar_laneMid) (simp add: assms)
  with Cons show ?thesis by (simp add: incomingStep_def)
qed

lemma length_carBuffer_placeCar:
  "length (carBuffer s) \<le> length (carBuffer (placeCar car coin s))"
  using placeCar_cases [of car coin s] by (auto simp: unshiftCar_def pushCar_def)

lemma length_carBuffer_incomingStep:
  "length (carBuffer s) \<le> length (carBuffer (incomingStep coin s)) + 1"
proof (cases "carBuffer s")
  case Nil
  then show ?thesis by simp
next
  case (Cons car rest)
  with length_carBuffer_placeCar [of "s\<lparr>carBuffer := rest\<rparr>" car coin]
  show ?thesis by (simp add: incomingStep_def)
qed

lemma length_carBuffer_incomingLoop:
  "length (carBuffer s) \<le> length (carBuffer (fold (\<lambda>i. incomingStep (coins i)) xs s)) + length xs"
proof (induction xs arbitrary: s)
  case Nil
  then show ?case by simp
next
  case (Cons x xs)
  have "length (carBuffer s) \<le> length (carBuffer (incomingStep (coins x) s)) + 1"
    by (rule length_carBuffer_incomingStep)
  also have "length (carBuffer (incomingStep (coins x) s)) \<le>
      length (carBuffer (fold (\<lambda>i. incomingStep (coins i)) xs (incomingStep (coins x) s))) + length xs"
    by (rule Cons.IH)
  finally show ?case by simp
qed

lemma incomingLoop_nonempty:
  assumes "i < min 2 (length (carBuffer s))"
  shows "carBuffer (fold (\<lambda>k. incomingStep (coins k)) [0..<i] s) \<noteq> []"
proof -
  have "length (carBuffer s) \<le>
      length (carBuffer (fold (\<lambda>k. incomingStep (coins k)) [0..<i] s)) + i"
    using length_carBuffer_incomingLoop [of s coins "[0..<i]"] by simp
  with assms have "0 < length (carBuffer (fold (\<lambda>k. incomingStep (coins k)) [0..<i] s))"
    by linarith
  then show ?thesis by (simp only: length_greater_0_conv not_False_eq_True)
qed

lemma fold_invariant:
  assumes "\<And>x s. P s \<Longrightarrow> P (f x s)" and "P s"
  shows "P (fold f xs s)"
  using assms(2) by (induction xs arbitrary: s) (simp_all add: assms(1))

lemma refreshStatus_eq: "refreshStatus l s = setLine l (refreshed (lines s l)) s"
  by (simp add: refreshStatus_def refreshed_def Let_def setLine_def)

lemma fold_refreshStatus:
  "distinct xs \<Longrightarrow>
   fold refreshStatus xs s =
     s\<lparr>lines := (\<lambda>l. if l \<in> set xs then refreshed (lines s l) else lines s l)\<rparr>"
proof (induction xs arbitrary: s)
  case Nil
  then show ?case by simp
next
  case (Cons x xs)
  then have "fold refreshStatus (x # xs) s =
      (refreshStatus x s)\<lparr>lines := (\<lambda>l. if l \<in> set xs then refreshed (lines (refreshStatus x s) l)
                                        else lines (refreshStatus x s) l)\<rparr>"
    by simp
  also have "\<dots> = s\<lparr>lines := (\<lambda>l. if l \<in> set (x # xs) then refreshed (lines s l) else lines s l)\<rparr>"
    using Cons.prems by (auto simp: refreshStatus_eq setLine_def fun_eq_iff)
  finally show ?case .
qed

lemma refresh_all: "fold refreshStatus lineIds s = s\<lparr>lines := (\<lambda>l. refreshed (lines s l))\<rparr>"
  by (simp add: fold_refreshStatus [OF distinct_lineIds])

lemma laneMid_refreshed: "laneMid ln \<Longrightarrow> laneOk (refreshed ln)"
  by (auto simp: laneMid_def laneOk_def refreshed_def)

lemma laneOk_laneMid: "laneOk ln \<Longrightarrow> laneMid ln"
  by (auto simp: laneMid_def laneOk_def)

lemma length_cars_refreshed [simp]: "cars (refreshed ln) = cars ln"
  by (simp add: refreshed_def)

lemma processIncomingCars_eq:
  "processIncomingCars coins s =
     (if carBuffer s = [] then s
      else (let s' = fold (\<lambda>i. incomingStep (coins i)) [0..<min 2 (length (carBuffer s))] s
            in s'\<lparr>lines := (\<lambda>l. refreshed (lines s' l))\<rparr>))"
  by (simp add: processIncomingCars_def refresh_all Let_def)

lemma carsInSystem_lines_refreshed [simp]:
  "carsInSystem (s\<lparr>lines := (\<lambda>l. refreshed (lines s l))\<rparr>) = carsInSystem s"
  by (simp add: carsInSystem_def carsInLanes_def)

lemma carsInSystem_processIncomingCars:
  "carsInSystem (processIncomingCars coins s) = carsInSystem s"
proof -
  have "carsInSystem (fold (\<lambda>i. incomingStep (coins i)) xs s) = carsInSystem s" for xs
    by (rule fold_invariant [where P = "\<lambda>t. carsInSystem t = carsInSystem s"])
       (simp_all add: carsInSystem_incomingStep)
  then show ?thesis by (simp add: processIncomingCars_eq Let_def)
qed

lemma processIncomingCars_laneOk:
  assumes "\<And>l. laneOk (lines s l)"
  shows "laneOk (lines (processIncomingCars coins s) l)"
proof -
  have "\<forall>l. laneMid (lines (fold (\<lambda>i. incomingStep (coins i)) xs s) l)" for xs
    by (rule fold_invariant [where P = "\<lambda>t. \<forall>l. laneMid (lines t l)"])
       (simp_all add: incomingStep_laneMid assms laneOk_laneMid)
  then show ?thesis by (simp add: processIncomingCars_eq Let_def assms laneMid_refreshed)
qed


subsection \<open>processMainLine\<close>

lemma processMainLine_empty_slot:
  assumes "currentCar (mainLine s) = None"
  shows "processMainLine s = s \<or>
    (\<exists>l car rest. selectNextLine s = Some l \<and> cars (lines s l) = car # rest \<and>
       processMainLine s =
         (setLine l (popped (lines s l) rest) s)
           \<lparr>mainLine := \<lparr>feedingFrom = Some l, currentCar = Some car\<rparr>\<rparr>)"
proof (cases "selectNextLine s")
  case None
  with assms show ?thesis by (simp add: processMainLine_def)
next
  case (Some l)
  show ?thesis
  proof (cases "cars (lines s l)")
    case Nil
    with assms Some show ?thesis by (simp add: processMainLine_def)
  next
    case (Cons car rest)
    have "processMainLine s =
         (setLine l (popped (lines s l) rest) s)
           \<lparr>mainLine := \<lparr>feedingFrom = Some l, currentCar = Some car\<rparr>\<rparr>"
      using assms Some Cons by (simp add: processMainLine_def Let_def popped_def setLine_def)
    with Some Cons show ?thesis by blast
  qed
qed

lemma processMainLine_occupied:
  assumes "currentCar (mainLine s) = Some car"
  shows "processMainLine s =
     s\<lparr>recentSequence :=
          (if length (recentSequence s @ [car]) > 15 then tl (recentSequence s @ [car])
           else recentSequence s @ [car]),
       totalCarsProcessed := totalCarsProcessed s + 1,
       processedThisHour := processedThisHour s + 1,
       mainLine := \<lparr>feedingFrom = None, currentCar = None\<rparr>\<rparr>"
  using assms by (simp add: processMainLine_def Let_def)

lemma carsInSystem_processMainLine: "carsInSystem (processMainLine s) = carsInSystem s"
proof (cases "currentCar (mainLine s)")
  case (Some car)
  then show ?thesis
    by (simp add: processMainLine_occupied carsInSystem_def carsInLanes_def)
next
  case None
  from processMainLine_empty_slot [OF None]
  consider "processMainLine s = s"
    | l car rest where "cars (lines s l) = car # rest"
        "processMainLine s = (setLine l (popped (lines s l) rest) s)
           \<lparr>mainLine := \<lparr>feedingFrom = Some l, currentCar = Some car\<rparr>\<rparr>"
    by blast
  then show ?thesis
  proof cases
    case 1
    then show ?thesis by simp
  next
    case 2
    have "carsInLanes (setLine l (popped (lines s l) rest) s) + 1 = carsInLanes s"
      using carsInLanes_setLine [of l "popped (lines s l) rest" s] 2(1)
      by (simp add: popped_def)
    moreover have "carsInLanes ((setLine l (popped (lines s l) rest) s)
           \<lparr>mainLine := \<lparr>feedingFrom = Some l, currentCar = Some car\<rparr>\<rparr>) =
        carsInLanes (setLine l (popped (lines s l) rest) s)"
      by (simp add: carsInLanes_def)
    ultimately show ?thesis using None 2(2) by (simp add: carsInSystem_def)
  qed
qed

lemma laneOk_popped: "laneOk ln \<Longrightarrow> cars ln = car # rest \<Longrightarrow> laneOk (popped ln rest)"
  by (auto simp: laneOk_def popped_def)

lemma processMainLine_laneOk:
  assumes "\<And>l. laneOk (lines s l)"
  shows "laneOk (lines (processMainLine s) l)"
proof (cases "currentCar (mainLine s)")
  case (Some car)
  then show ?thesis by (simp add: processMainLine_occupied assms)
next
  case None
  from processMainLine_empty_slot [OF None]
  consider "processMainLine s = s"
    | k car rest where "cars (lines s k) = car # rest"
        "processMainLine s = (setLine k (popped (lines s k) rest) s)
           \<lparr>mainLine := \<lparr>feedingFrom = Some k, currentCar = Some car\<rparr>\<rparr>"
    by blast
  then show ?thesis
  proof cases
    case 1
    then show ?thesis by (simp add: assms)
  next
    case 2
    then show ?thesis using laneOk_popped [OF assms [of k] 2(1)] assms [of l] by simp
  qed
qed

subsection \<open>tick, recovery, reset\<close>

lemma recountAlerts_fold:
  "fold countAlert lns s =
     s\<lparr>activeAlerts := activeAlerts s +
          length (filter (\<lambda>ln. status ln = Full \<or> status ln = Unavailable) lns)\<rparr>"
  by (induction lns arbitrary: s) (simp_all add: countAlert_def)

lemma recountAlerts_eq:
  "recountAlerts s =
     s\<lparr>activeAlerts :=
          length (filter (\<lambda>l. status (lines s l) = Full \<or> status (lines s l) = Unavailable) lineIds)\<rparr>"
  by (simp add: recountAlerts_def recountAlerts_fold filter_map comp_def)

lemma carsInSystem_simulateBreakdown:
  "carsInSystem (simulateBreakdown r now s) = carsInSystem s"
proof -
  have "carsInSystem (setLine l ((lines s l)\<lparr>status := Unavailable, lastBreakdown := now\<rparr>) s) =
        carsInSystem s" for l
    using carsInLanes_setLine [of l "(lines s l)\<lparr>status := Unavailable, lastBreakdown := now\<rparr>" s]
    by (simp add: carsInSystem_def)
  then show ?thesis using simulateBreakdown_cases [of r now s] by auto
qed

lemma carsInSystem_hour [simp]:
  "carsInSystem (s\<lparr>processedThisHour := p, hourStartTime := h\<rparr>) = carsInSystem s"
  by (simp add: carsInSystem_def carsInLanes_def)

lemma carsInSystem_tick: "carsInSystem (tick inp s) = carsInSystem s"
  by (simp add: tick_def Let_def recountAlerts_eq carsInSystem_processMainLine
        carsInSystem_processIncomingCars carsInSystem_simulateBreakdown)

lemma tick_laneOk:
  assumes "\<And>l. laneOk (lines s l)"
  shows "laneOk (lines (tick inp s) l)"
proof -
  let ?s1 = "if breakdownRoll inp
             then simulateBreakdown (breakdownPick inp) (breakdownNow inp) s else s"
  have 1: "laneOk (lines ?s1 k)" for k
    by (simp add: assms simulateBreakdown_laneOk)
  have 2: "laneOk (lines (processIncomingCars (ovenCoins inp) ?s1) k)" for k
    by (rule processIncomingCars_laneOk) (rule 1)
  have 3: "laneOk (lines (processMainLine (processIncomingCars (ovenCoins inp) ?s1)) k)" for k
    by (rule processMainLine_laneOk) (rule 2)
  show ?thesis
    using 3 [of l] assms [of l] by (simp add: tick_def Let_def recountAlerts_eq)
qed

lemma carsInSystem_recoverLine: "carsInSystem (recoverLine l s) = carsInSystem s"
  using carsInLanes_setLine [of l "(lines s l)\<lparr>status := Active\<rparr>" s]
  by (simp add: recoverLine_def carsInSystem_def)

lemma recoverLine_laneOk:
  assumes "\<And>l. laneOk (lines s l)"
  shows "laneOk (lines (recoverLine k s) l)"
  using assms [of l] assms [of k] by (auto simp: recoverLine_def laneOk_def)

lemma length_shuffleLoop [simp]: "length (shuffleLoop k rnd xs) = length xs"
  by (induction k arbitrary: xs) (simp_all add: Let_def)

lemma length_shuffleArray [simp]: "length (shuffleArray rnd xs) = length xs"
  by (simp add: shuffleArray_def)

lemma length_generatedCars: "length generatedCars = 120"
  by (simp add: generatedCars_def COLOR_DISTRIBUTION_def)

lemma carsInSystem_reset: "carsInSystem (reset ri) = 120"
  by (simp add: reset_def carsInSystem_def carsInLanes_def length_generatedCars
        lineIds_def initialLines_def initialLine_def)

lemma reset_laneOk: "laneOk (lines (reset ri) l)"
  by (cases l) (simp_all add: reset_def initialLines_def initialLine_def laneOk_def)

lemma carsInSystem_exec: "carsInSystem (exec e s) = (case e of Reset ri \<Rightarrow> 120 | _ \<Rightarrow> carsInSystem s)"
proof (cases e)
  case Start
  then show ?thesis by (simp add: start_def carsInSystem_def carsInLanes_def)
next
  case Pause
  then show ?thesis by (simp add: pause_def carsInSystem_def carsInLanes_def)
qed (simp_all add: carsInSystem_reset carsInSystem_tick carsInSystem_recoverLine)

lemma exec_laneOk:
  assumes "\<And>l. laneOk (lines s l)"
  shows "laneOk (lines (exec e s) l)"
  by (cases e) (simp_all add: reset_laneOk tick_laneOk recoverLine_laneOk assms start_def pause_def)

lemma reachable_invariant:
  "reachable s \<Longrightarrow> carsInSystem s = 120 \<and> (\<forall>l. laneOk (lines s l))"
proof (induction rule: reachable.induct)
  case (constructed ri)
  show ?case by (simp add: carsInSystem_reset reset_laneOk)
next
  case (after_event s e)
  then show ?case by (auto simp: carsInSystem_exec exec_laneOk split: event.splits)
qed

subsection \<open>Which lanes a phase can touch\<close>

lemma simulateBreakdown_untouched:
  "status (lines s l) \<noteq> Active \<Longrightarrow> lines (simulateBreakdown r now s) l = lines s l"
  using simulateBreakdown_cases [of r now s] by auto

lemma simulateBreakdown_threshold:
  "length (filter (\<lambda>k. status (lines s k) = Active) lineIds) \<le> 2 \<Longrightarrow> simulateBreakdown r now s = s"
  by (simp add: simulateBreakdown_def)

lemma placeCar_keeps:
  "status (lines (placeCar car coin s) l) = status (lines s l) \<and>
   capacity (lines (placeCar car coin s) l) = capacity (lines s l) \<and>
   oven (lines (placeCar car coin s) l) = oven (lines s l) \<and>
   lastBreakdown (lines (placeCar car coin s) l) = lastBreakdown (lines s l)"
  using lines_placeCar [of car coin s] by auto

lemma incomingStep_keeps:
  "status (lines (incomingStep coin s) l) = status (lines s l) \<and>
   capacity (lines (incomingStep coin s) l) = capacity (lines s l) \<and>
   oven (lines (incomingStep coin s) l) = oven (lines s l) \<and>
   lastBreakdown (lines (incomingStep coin s) l) = lastBreakdown (lines s l)"
  by (cases "carBuffer s") (simp_all add: incomingStep_def placeCar_keeps)

lemma incomingLoop_keeps:
  "status (lines (fold (\<lambda>i. incomingStep (coins i)) xs s) l) = status (lines s l) \<and>
   capacity (lines (fold (\<lambda>i. incomingStep (coins i)) xs s) l) = capacity (lines s l) \<and>
   oven (lines (fold (\<lambda>i. incomingStep (coins i)) xs s) l) = oven (lines s l) \<and>
   lastBreakdown (lines (fold (\<lambda>i. incomingStep (coins i)) xs s) l) = lastBreakdown (lines s l)"
  by (rule fold_invariant [where P = "\<lambda>t. status (lines t l) = status (lines s l) \<and>
        capacity (lines t l) = capacity (lines s l) \<and> oven (lines t l) = oven (lines s l) \<and>
        lastBreakdown (lines t l) = lastBreakdown (lines s l)"])
     (simp_all add: incomingStep_keeps)

lemma refreshed_keeps [simp]:
  "capacity (refreshed ln) = capacity ln" "oven (refreshed ln) = oven ln"
  "lastBreakdown (refreshed ln) = lastBreakdown ln"
  by (simp_all add: refreshed_def)

lemma refreshed_not_Unavailable:
  "status ln \<noteq> Unavailable \<Longrightarrow> status (refreshed ln) \<noteq> Unavailable"
  by (simp add: refreshed_def)

lemma processIncomingCars_lastBreakdown:
  "lastBreakdown (lines (processIncomingCars coins s) l) = lastBreakdown (lines s l)"
  by (simp add: processIncomingCars_eq Let_def incomingLoop_keeps)

lemma processIncomingCars_not_Unavailable:
  "status (lines s l) \<noteq> Unavailable \<Longrightarrow>
   status (lines (processIncomingCars coins s) l) \<noteq> Unavailable"
  by (simp add: processIncomingCars_eq Let_def incomingLoop_keeps refreshed_not_Unavailable)

lemma processMainLine_lines:
  "lines (processMainLine s) = lines s \<or>
   (\<exists>l car rest. currentCar (mainLine s) = None \<and> selectNextLine s = Some l \<and>
      cars (lines s l) = car # rest \<and>
      lines (processMainLine s) = (lines s)(l := popped (lines s l) rest))"
proof (cases "currentCar (mainLine s)")
  case None
  with processMainLine_empty_slot [OF None] show ?thesis by auto
next
  case (Some car)
  then show ?thesis by (simp add: processMainLine_occupied)
qed

lemma processMainLine_lastBreakdown:
  "lastBreakdown (lines (processMainLine s) l) = lastBreakdown (lines s l)"
  using processMainLine_lines [of s] by (auto simp: popped_def)

lemma popped_not_Unavailable:
  "status ln \<noteq> Unavailable \<Longrightarrow> status (popped ln rest) \<noteq> Unavailable"
  by (simp add: popped_def)

lemma processMainLine_not_Unavailable:
  assumes "status (lines s l) \<noteq> Unavailable"
  shows "status (lines (processMainLine s) l) \<noteq> Unavailable"
proof -
  consider "lines (processMainLine s) = lines s"
    | k rest where "lines (processMainLine s) = (lines s)(k := popped (lines s k) rest)"
    using processMainLine_lines [of s] by blast
  then show ?thesis
  proof cases
    case 1
    then show ?thesis using assms by simp
  next
    case 2
    then show ?thesis using assms popped_not_Unavailable [of "lines s l" rest] by auto
  qed
qed

lemma tick_after_breakdown:
  "isRunning s \<Longrightarrow> \<not> isPaused s \<Longrightarrow>
   lines (tick inp s) =
   lines (processMainLine (processIncomingCars (ovenCoins inp)
     (if breakdownRoll inp then simulateBreakdown (breakdownPick inp) (breakdownNow inp) s else s)))"
  by (simp add: tick_def Let_def recountAlerts_eq)

lemma later_phases_not_Unavailable:
  "status (lines s l) \<noteq> Unavailable \<Longrightarrow>
   status (lines (processMainLine (processIncomingCars coins s)) l) \<noteq> Unavailable"
  by (simp add: processMainLine_not_Unavailable processIncomingCars_not_Unavailable)

lemma later_phases_lastBreakdown:
  "lastBreakdown (lines (processMainLine (processIncomingCars coins s)) l) = lastBreakdown (lines s l)"
  by (simp add: processMainLine_lastBreakdown processIncomingCars_lastBreakdown)

lemma tick_Full_not_Unavailable:
  assumes "status (lines s l) = Full"
  shows "status (lines (tick inp s) l) \<noteq> Unavailable"
proof (cases "isRunning s \<and> \<not> isPaused s")
  case False
  then show ?thesis using assms by (auto simp: tick_def)
next
  case True
  let ?s1 = "if breakdownRoll inp
             then simulateBreakdown (breakdownPick inp) (breakdownNow inp) s else s"
  have "lines ?s1 l = lines s l"
    using assms by (simp add: simulateBreakdown_untouched)
  then have "status (lines ?s1 l) \<noteq> Unavailable" using assms by simp
  then show ?thesis
    using True tick_after_breakdown [of s inp] later_phases_not_Unavailable [of ?s1 l]
    by simp
qed


section \<open>The claims\<close>

subsection \<open>C1: conservation of cars\<close>

text \<open>
  Claim C1. In every reachable state the cars in the backlog, the cars queued in the
  lanes, the car in the conveyor slot (if any) and the cars processed so far add up to
  the number of cars generated by the last reset, which is 120; and none of tick,
  breakdown, recovery, start and pause changes that sum, in any state.
\<close>

theorem car_conservation:
  "(reachable s \<longrightarrow> carsInSystem s = 120) \<and>
   length (carBuffer (reset ri)) = 120 \<and> carsInSystem (reset ri) = 120 \<and>
   carsInSystem (tick inp t) = carsInSystem t \<and>
   carsInSystem (simulateBreakdown r now t) = carsInSystem t \<and>
   carsInSystem (recoverLine l t) = carsInSystem t \<and>
   carsInSystem (start t) = carsInSystem t \<and>
   carsInSystem (pause t) = carsInSystem t"
proof -
  have "carsInSystem (exec Start t) = carsInSystem t" "carsInSystem (exec Pause t) = carsInSystem t"
    by (simp_all only: carsInSystem_exec event.case)
  moreover have "length (carBuffer (reset ri)) = 120"
    by (simp add: reset_def length_generatedCars)
  ultimately show ?thesis
    using reachable_invariant [of s]
    by (simp add: carsInSystem_reset carsInSystem_tick carsInSystem_simulateBreakdown
          carsInSystem_recoverLine)
qed

theorem car_conservation_witness:
  "reachable (exec (Tick exampleTick) (exec Start (reset exampleReset))) \<and>
   carsInSystem (exec (Tick exampleTick) (exec Start (reset exampleReset))) = 120"
proof -
  have r: "reachable (exec (Tick exampleTick) (exec Start (reset exampleReset)))"
    by (intro reachable.intros)
  with car_conservation [of "exec (Tick exampleTick) (exec Start (reset exampleReset))"]
  show ?thesis by simp
qed

subsection \<open>C2: lanes stay within capacity\<close>

text \<open>
  Claim C2. In every reachable state every lane holds at least 0 and at most
  \<open>capacity\<close> cars; and, in any state, the lane that \<open>findBestLine\<close> returns and any lane
  whose queue the allocator changes held fewer cars than its capacity.
\<close>

theorem capacity_invariant:
  "(reachable s \<longrightarrow> (\<forall>l. 0 \<le> length (cars (lines s l)) \<and>
        length (cars (lines s l)) \<le> capacity (lines s l))) \<and>
   (findBestLine car ov t = Some k \<longrightarrow> length (cars (lines t k)) < capacity (lines t k)) \<and>
   (\<forall>l. cars (lines (placeCar car coin t) l) \<noteq> cars (lines t l) \<longrightarrow>
        length (cars (lines t l)) < capacity (lines t l))"
proof (intro conjI impI allI)
  fix l assume "reachable s"
  then have "laneOk (lines s l)" using reachable_invariant by blast
  then show "length (cars (lines s l)) \<le> capacity (lines s l)" by (simp add: laneOk_def)
next
  assume "findBestLine car ov t = Some k"
  then show "length (cars (lines t k)) < capacity (lines t k)"
    using findBestLine_Some by blast
next
  fix l assume ch: "cars (lines (placeCar car coin t) l) \<noteq> cars (lines t l)"
  then obtain j ov' where j: "findBestLine car ov' t = Some j"
    "lines (placeCar car coin t) = (lines t)(j := (lines t j)\<lparr>cars := cars (lines t j) @ [car]\<rparr>)"
    using lines_placeCar [of car coin t] by auto
  with ch have "l = j" by (auto split: if_splits)
  with findBestLine_Some [OF j(1)] show "length (cars (lines t l)) < capacity (lines t l)" by simp
qed simp

theorem capacity_invariant_witness:
  "reachable (exec (Tick exampleTick) (exec Start (reset exampleReset))) \<and>
   length (cars (lines (exec (Tick exampleTick) (exec Start (reset exampleReset))) L5)) \<le> 16 \<and>
   findBestLine C1 O1 (reset exampleReset) = Some L1 \<and>
   cars (lines (placeCar C1 True (reset exampleReset)) L1) \<noteq> cars (lines (reset exampleReset) L1) \<and>
   length (cars (lines (reset exampleReset) L1)) < capacity (lines (reset exampleReset) L1)"
proof -
  let ?s = "exec (Tick exampleTick) (exec Start (reset exampleReset))"
  have r: "reachable ?s" by (intro reachable.intros)
  have c: "capacity (lines ?s L5) = 16" by code_simp
  have f: "findBestLine C1 O1 (reset exampleReset) = Some L1" by code_simp
  have p: "cars (lines (placeCar C1 True (reset exampleReset)) L1) \<noteq> cars (lines (reset exampleReset) L1)"
    by code_simp
  from capacity_invariant [of ?s C1 O1 "reset exampleReset" L1 True] r
  have "length (cars (lines ?s L5)) \<le> capacity (lines ?s L5)"
    and "length (cars (lines (reset exampleReset) L1)) < capacity (lines (reset exampleReset) L1)"
    using f p by blast+
  with r c f p show ?thesis by simp
qed


subsection \<open>C7: the alert count is recomputed\<close>

lemma alerts_eraseD:
  assumes "s'\<lparr>activeAlerts := 0\<rparr> = s\<lparr>activeAlerts := 0\<rparr>"
  shows "s' = s\<lparr>activeAlerts := activeAlerts s'\<rparr>"
proof -
  have "s' = (s'\<lparr>activeAlerts := 0\<rparr>)\<lparr>activeAlerts := activeAlerts s'\<rparr>" by simp
  also have "\<dots> = (s\<lparr>activeAlerts := 0\<rparr>)\<lparr>activeAlerts := activeAlerts s'\<rparr>"
    by (simp only: assms)
  finally show ?thesis by simp
qed

lemma simulateBreakdown_alerts:
  "simulateBreakdown r now (s\<lparr>activeAlerts := k\<rparr>) = (simulateBreakdown r now s)\<lparr>activeAlerts := k\<rparr>"
  by (simp add: simulateBreakdown_def Let_def setLine_def)

lemma placeCar_alerts:
  "(placeCar car coin (s\<lparr>activeAlerts := k\<rparr>))\<lparr>activeAlerts := 0\<rparr> =
   (placeCar car coin s)\<lparr>activeAlerts := 0\<rparr>"
proof -
  have fb: "findBestLine car ov (s\<lparr>activeAlerts := k\<rparr>) = findBestLine car ov s" for ov
    by (rule findBestLine_lines_cong) simp
  show ?thesis
    by (simp add: placeCar_def Let_def fb pushCar_def unshiftCar_def setLine_def split: option.splits)
qed

lemma incomingStep_alerts:
  assumes "s'\<lparr>activeAlerts := 0\<rparr> = s\<lparr>activeAlerts := 0\<rparr>"
  shows "(incomingStep coin s')\<lparr>activeAlerts := 0\<rparr> = (incomingStep coin s)\<lparr>activeAlerts := 0\<rparr>"
proof -
  from alerts_eraseD [OF assms] obtain k where s': "s' = s\<lparr>activeAlerts := k\<rparr>" by blast
  show ?thesis
  proof (cases "carBuffer s")
    case Nil
    then show ?thesis by (simp add: s' incomingStep_def)
  next
    case (Cons car rest)
    have cb: "carBuffer s' = car # rest" by (simp add: s' Cons)
    have eq: "s'\<lparr>carBuffer := rest\<rparr> = (s\<lparr>carBuffer := rest\<rparr>)\<lparr>activeAlerts := k\<rparr>"
      by (simp add: s')
    have "incomingStep coin s' = placeCar car coin (s'\<lparr>carBuffer := rest\<rparr>)"
      by (simp add: incomingStep_def cb)
    also have "\<dots> = placeCar car coin ((s\<lparr>carBuffer := rest\<rparr>)\<lparr>activeAlerts := k\<rparr>)"
      by (simp only: eq)
    finally have "(incomingStep coin s')\<lparr>activeAlerts := 0\<rparr> =
        (placeCar car coin (s\<lparr>carBuffer := rest\<rparr>))\<lparr>activeAlerts := 0\<rparr>"
      by (simp only: placeCar_alerts)
    moreover have "incomingStep coin s = placeCar car coin (s\<lparr>carBuffer := rest\<rparr>)"
      by (simp add: incomingStep_def Cons)
    ultimately show ?thesis by simp
  qed
qed

lemma incomingLoop_alerts:
  assumes "s'\<lparr>activeAlerts := 0\<rparr> = s\<lparr>activeAlerts := 0\<rparr>"
  shows "(fold (\<lambda>i. incomingStep (coins i)) xs s')\<lparr>activeAlerts := 0\<rparr> =
         (fold (\<lambda>i. incomingStep (coins i)) xs s)\<lparr>activeAlerts := 0\<rparr>"
  using assms
proof (induction xs arbitrary: s s')
  case Nil
  then show ?case by simp
next
  case (Cons x xs)
  have "(incomingStep (coins x) s')\<lparr>activeAlerts := 0\<rparr> =
        (incomingStep (coins x) s)\<lparr>activeAlerts := 0\<rparr>"
    using Cons.prems by (rule incomingStep_alerts)
  from Cons.IH [OF this] show ?case by simp
qed

lemma processIncomingCars_alerts:
  "(processIncomingCars coins (s\<lparr>activeAlerts := k\<rparr>))\<lparr>activeAlerts := 0\<rparr> =
   (processIncomingCars coins s)\<lparr>activeAlerts := 0\<rparr>"
proof -
  let ?xs = "[0..<min 2 (length (carBuffer s))]"
  let ?a = "fold (\<lambda>i. incomingStep (coins i)) ?xs (s\<lparr>activeAlerts := k\<rparr>)"
  let ?b = "fold (\<lambda>i. incomingStep (coins i)) ?xs s"
  have "?a\<lparr>activeAlerts := 0\<rparr> = ?b\<lparr>activeAlerts := 0\<rparr>"
    by (rule incomingLoop_alerts) simp
  from alerts_eraseD [OF this] obtain j where "?a = ?b\<lparr>activeAlerts := j\<rparr>" by blast
  then show ?thesis by (simp add: processIncomingCars_eq Let_def)
qed

lemma selectNextLine_lines_cong:
  assumes "lines s' = lines s"
  shows "selectNextLine s' = selectNextLine s"
proof -
  have gt: "groupTotal s' = groupTotal s" by (rule ext) (simp add: groupTotal_def assms)
  have cg: "colorGroups s' = colorGroups s" by (rule ext) (simp add: colorGroups_def assms)
  show ?thesis unfolding selectNextLine_def assms gt cg ..
qed

lemma processMainLine_alerts:
  "processMainLine (s\<lparr>activeAlerts := k\<rparr>) = (processMainLine s)\<lparr>activeAlerts := k\<rparr>"
proof -
  have sel: "selectNextLine (s\<lparr>activeAlerts := k\<rparr>) = selectNextLine s"
    by (rule selectNextLine_lines_cong) simp
  show ?thesis
  proof (cases "currentCar (mainLine s)")
    case (Some car)
    then show ?thesis by (simp add: processMainLine_def Let_def)
  next
    case None
    show ?thesis
    proof (cases "selectNextLine s")
      case no: None
      with None sel show ?thesis by (simp add: processMainLine_def)
    next
      case (Some l)
      show ?thesis
      proof (cases "cars (lines s l)")
        case Nil
        with None Some sel show ?thesis by (simp add: processMainLine_def)
      next
        case (Cons car rest)
        with None Some sel show ?thesis
          by (simp add: processMainLine_def Let_def setLine_def)
      qed
    qed
  qed
qed

lemma recountAlerts_alerts: "recountAlerts (s\<lparr>activeAlerts := k\<rparr>) = recountAlerts s"
  by (simp add: recountAlerts_eq)

lemma tick_alerts:
  assumes "isRunning s" and "\<not> isPaused s"
  shows "tick inp (s\<lparr>activeAlerts := k\<rparr>) = tick inp s"
proof -
  define s1 where "s1 = (if breakdownRoll inp
      then simulateBreakdown (breakdownPick inp) (breakdownNow inp) s else s)"
  define s2 where "s2 = processIncomingCars (ovenCoins inp) s1"
  define s2' where "s2' = processIncomingCars (ovenCoins inp) (s1\<lparr>activeAlerts := k\<rparr>)"
  have "s2'\<lparr>activeAlerts := 0\<rparr> = s2\<lparr>activeAlerts := 0\<rparr>"
    unfolding s2_def s2'_def by (rule processIncomingCars_alerts)
  from alerts_eraseD [OF this] obtain j where j: "s2' = s2\<lparr>activeAlerts := j\<rparr>" by blast
  have hour: "(if d \<le> hourCheckNow inp - hourStartTime (t\<lparr>activeAlerts := j\<rparr>)
          then (t\<lparr>activeAlerts := j\<rparr>)\<lparr>processedThisHour := 0, hourStartTime := h\<rparr>
          else t\<lparr>activeAlerts := j\<rparr>) =
        (if d \<le> hourCheckNow inp - hourStartTime t
          then t\<lparr>processedThisHour := 0, hourStartTime := h\<rparr> else t)\<lparr>activeAlerts := j\<rparr>"
    for d h t by simp
  have lhs: "tick inp (s\<lparr>activeAlerts := k\<rparr>) =
      recountAlerts (let s3 = processMainLine s2' in
        if 3600000 \<le> hourCheckNow inp - hourStartTime s3
        then s3\<lparr>processedThisHour := 0, hourStartTime := hourResetNow inp\<rparr> else s3)"
    using assms by (simp add: tick_def Let_def s2'_def s1_def simulateBreakdown_alerts)
  have rhs: "tick inp s =
      recountAlerts (let s3 = processMainLine s2 in
        if 3600000 \<le> hourCheckNow inp - hourStartTime s3
        then s3\<lparr>processedThisHour := 0, hourStartTime := hourResetNow inp\<rparr> else s3)"
    using assms by (simp add: tick_def Let_def s2_def s1_def)
  show ?thesis
    unfolding lhs rhs j processMainLine_alerts Let_def hour recountAlerts_alerts ..
qed

text \<open>
  Claim C7. At the end of every executed tick (running and not paused) \<open>activeAlerts\<close>
  is the number of lanes whose status is then \<open>full\<close> or \<open>unavailable\<close>. The value that
  \<open>activeAlerts\<close> had before the recount, and so every increment of the allocator, is
  overwritten: the tick gives the same state whatever \<open>activeAlerts\<close> was.
\<close>

theorem alerts_recomputed:
  assumes "isRunning s" and "\<not> isPaused s"
  shows "activeAlerts (tick inp s) =
           length (filter (\<lambda>l. status (lines (tick inp s) l) = Full \<or>
                                status (lines (tick inp s) l) = Unavailable) lineIds) \<and>
         tick inp (s\<lparr>activeAlerts := k\<rparr>) = tick inp s \<and>
         recountAlerts (t\<lparr>activeAlerts := k\<rparr>) = recountAlerts t"
proof (intro conjI)
  show "activeAlerts (tick inp s) =
           length (filter (\<lambda>l. status (lines (tick inp s) l) = Full \<or>
                                status (lines (tick inp s) l) = Unavailable) lineIds)"
    using assms by (simp add: tick_def Let_def recountAlerts_eq)
  show "tick inp (s\<lparr>activeAlerts := k\<rparr>) = tick inp s"
    using assms by (rule tick_alerts)
  show "recountAlerts (t\<lparr>activeAlerts := k\<rparr>) = recountAlerts t"
    by (rule recountAlerts_alerts)
qed

theorem alerts_recomputed_witness:
  "isRunning (start (reset exampleReset)) \<and> \<not> isPaused (start (reset exampleReset)) \<and>
   activeAlerts (tick exampleTick (start (reset exampleReset))) = 1 \<and>
   length (filter (\<lambda>l. status (lines (tick exampleTick (start (reset exampleReset))) l) = Full \<or>
                status (lines (tick exampleTick (start (reset exampleReset))) l) = Unavailable) lineIds)
     = 1 \<and>
   tick exampleTick ((start (reset exampleReset))\<lparr>activeAlerts := 7\<rparr>) =
     tick exampleTick (start (reset exampleReset))"
proof -
  have run: "isRunning (start (reset exampleReset))" "\<not> isPaused (start (reset exampleReset))"
    by (simp_all add: start_def)
  have a: "activeAlerts (tick exampleTick (start (reset exampleReset))) = 1"
    by code_simp
  have "activeAlerts (tick exampleTick (start (reset exampleReset))) =
      length (filter (\<lambda>l. status (lines (tick exampleTick (start (reset exampleReset))) l) = Full \<or>
                status (lines (tick exampleTick (start (reset exampleReset))) l) = Unavailable) lineIds)"
    and "tick exampleTick ((start (reset exampleReset))\<lparr>activeAlerts := 7\<rparr>) =
     tick exampleTick (start (reset exampleReset))"
    using alerts_recomputed [OF run, of exampleTick 7] by blast+
  then show ?thesis using run a by (simp only: simp_thms)
qed

subsection \<open>C10: a full lane does not break down\<close>

text \<open>
  Claim C10. \<open>simulateBreakdown\<close> changes a lane only if that lane is \<open>active\<close> and more
  than two lanes are \<open>active\<close>. A lane whose status is \<open>full\<close> is left alone by the
  breakdown roll, and no single event takes it to \<open>unavailable\<close>. In reachable states a
  lane is at capacity exactly when its status is \<open>full\<close>, so a lane at capacity is never
  marked unavailable.
\<close>

theorem full_never_unavailable:
  "(lines (simulateBreakdown r now s) l \<noteq> lines s l \<longrightarrow>
      status (lines s l) = Active \<and>
      length (filter (\<lambda>k. status (lines s k) = Active) lineIds) > 2) \<and>
   (status (lines s l) = Full \<longrightarrow>
      lines (simulateBreakdown r now s) l = lines s l \<and>
      status (lines (exec e s) l) \<noteq> Unavailable) \<and>
   (reachable s \<longrightarrow>
      (length (cars (lines s l)) = capacity (lines s l) \<longleftrightarrow> status (lines s l) = Full))"
proof (intro conjI impI)
  assume "lines (simulateBreakdown r now s) l \<noteq> lines s l"
  then show "status (lines s l) = Active"
    using simulateBreakdown_untouched [of s l r now] by blast
next
  assume "lines (simulateBreakdown r now s) l \<noteq> lines s l"
  then have "simulateBreakdown r now s \<noteq> s" by auto
  then show "length (filter (\<lambda>k. status (lines s k) = Active) lineIds) > 2"
    using simulateBreakdown_threshold [of s r now] by linarith
next
  assume "status (lines s l) = Full"
  then show "lines (simulateBreakdown r now s) l = lines s l"
    by (simp add: simulateBreakdown_untouched)
next
  assume full: "status (lines s l) = Full"
  show "status (lines (exec e s) l) \<noteq> Unavailable"
  proof (cases e)
    case (Reset ri)
    then show ?thesis
      by (cases l) (simp_all add: reset_def initialLines_def initialLine_def)
  next
    case (Tick inp)
    then show ?thesis using full by (simp add: tick_Full_not_Unavailable)
  next
    case (Recover k)
    then show ?thesis using full by (simp add: recoverLine_def)
  qed (simp_all add: full start_def pause_def)
next
  assume "reachable s"
  then have "laneOk (lines s l)" using reachable_invariant by blast
  then show "length (cars (lines s l)) = capacity (lines s l) \<longleftrightarrow> status (lines s l) = Full"
    by (auto simp: laneOk_def)
qed


theorem full_never_unavailable_witness:
  "status (lines fullLaneState L8) = Full \<and>
   lines (simulateBreakdown 7 1700000100000 fullLaneState) L8 = lines fullLaneState L8 \<and>
   status (lines (exec (Tick exampleTick) fullLaneState) L8) \<noteq> Unavailable \<and>
   lines (simulateBreakdown 0 1700000100000 fullLaneState) L1 \<noteq> lines fullLaneState L1 \<and>
   status (lines fullLaneState L1) = Active \<and>
   length (filter (\<lambda>k. status (lines fullLaneState k) = Active) lineIds) > 2 \<and>
   reachable (reset exampleReset) \<and>
   (length (cars (lines (reset exampleReset) L8)) = capacity (lines (reset exampleReset) L8)
      \<longleftrightarrow> status (lines (reset exampleReset) L8) = Full)"
proof -
  have full: "status (lines fullLaneState L8) = Full"
    by (simp add: fullLaneState_def)
  have changed: "lines (simulateBreakdown 0 1700000100000 fullLaneState) L1 \<noteq> lines fullLaneState L1"
    by (simp add: fullLaneState_def simulateBreakdown_def lineIds_def initialLines_def
          initialLine_def setLine_def start_def reset_def)
  have r: "reachable (reset exampleReset)" by (rule reachable.constructed)
  from full_never_unavailable [of 7 1700000100000 fullLaneState L8 "Tick exampleTick"] full
  have a: "lines (simulateBreakdown 7 1700000100000 fullLaneState) L8 = lines fullLaneState L8"
    and b: "status (lines (exec (Tick exampleTick) fullLaneState) L8) \<noteq> Unavailable"
    by blast+
  from full_never_unavailable [of 0 1700000100000 fullLaneState L1] changed
  have c: "status (lines fullLaneState L1) = Active"
    and d: "length (filter (\<lambda>k. status (lines fullLaneState k) = Active) lineIds) > 2"
    by blast+
  from full_never_unavailable [of _ _ "reset exampleReset" L8] r
  have e: "length (cars (lines (reset exampleReset) L8)) = capacity (lines (reset exampleReset) L8)
      \<longleftrightarrow> status (lines (reset exampleReset) L8) = Full"
    by blast
  from full a b changed c d r e show ?thesis by (simp only: simp_thms)
qed

subsection \<open>C8: pause while stopped\<close>

text \<open>
  Claim C8 says that \<open>pause\<close> in a stopped simulator leaves the snapshot as it was, with
  \<open>is_paused\<close> still false. \<open>pause\<close> has no guard: it sets \<open>isPaused\<close> whether or not the
  simulator runs, and the snapshot shows it. Right after a reset:
\<close>

theorem pause_while_stopped_counterexample:
  "\<not> isRunning (reset exampleReset) \<and>
   \<not> snapIsPaused (getStatus Pair 1700000002000 (reset exampleReset)) \<and>
   snapIsPaused (getStatus Pair 1700000002000 (pause (reset exampleReset))) \<and>
   getStatus Pair 1700000002000 (pause (reset exampleReset)) \<noteq> getStatus Pair 1700000002000 (reset exampleReset)"
proof -
  have 1: "\<not> isRunning (reset exampleReset)"
    and 2: "\<not> snapIsPaused (getStatus Pair 1700000002000 (reset exampleReset))"
    and 3: "snapIsPaused (getStatus Pair 1700000002000 (pause (reset exampleReset)))"
    by (simp_all add: reset_def pause_def getStatus_def)
  from 2 3 have "getStatus Pair 1700000002000 (pause (reset exampleReset)) \<noteq>
      getStatus Pair 1700000002000 (reset exampleReset)"
    by metis
  with 1 2 3 show ?thesis by (simp only: simp_thms)
qed

text \<open>
  Claim C8, amended. In every state, stopped or not, \<open>pause\<close> sets \<open>isPaused\<close> to true and
  changes no other field: the snapshot afterwards is the snapshot before with \<open>is_paused\<close>
  reading true, \<open>isRunning\<close> is as before, and a tick after it does nothing.
\<close>

theorem pause_sets_only_isPaused:
  "getStatus jphOf now (pause s) = (getStatus jphOf now s)\<lparr>snapIsPaused := True\<rparr> \<and>
   pause s = s\<lparr>isPaused := True\<rparr> \<and>
   isRunning (pause s) = isRunning s \<and>
   tick inp (pause s) = pause s"
  by (simp add: pause_def getStatus_def tick_def)

theorem pause_sets_only_isPaused_witness:
  "\<not> isRunning (reset exampleReset) \<and>
   getStatus Pair 1700000002000 (pause (reset exampleReset)) =
     (getStatus Pair 1700000002000 (reset exampleReset))\<lparr>snapIsPaused := True\<rparr> \<and>
   \<not> isRunning (pause (reset exampleReset)) \<and>
   tick exampleTick (pause (reset exampleReset)) = pause (reset exampleReset)"
proof -
  have stopped: "\<not> isRunning (reset exampleReset)" by (simp add: reset_def)
  from pause_sets_only_isPaused [of Pair 1700000002000 "reset exampleReset" exampleTick]
  have "getStatus Pair 1700000002000 (pause (reset exampleReset)) =
      (getStatus Pair 1700000002000 (reset exampleReset))\<lparr>snapIsPaused := True\<rparr>"
    and "isRunning (pause (reset exampleReset)) = isRunning (reset exampleReset)"
    and "tick exampleTick (pause (reset exampleReset)) = pause (reset exampleReset)"
    by blast+
  with stopped show ?thesis by blast
qed

subsection \<open>C5: one tick on the conveyor\<close>

lemma simulateBreakdown_conveyor:
  "mainLine (simulateBreakdown r now s) = mainLine s \<and>
   totalCarsProcessed (simulateBreakdown r now s) = totalCarsProcessed s \<and>
   recentSequence (simulateBreakdown r now s) = recentSequence s \<and>
   processedThisHour (simulateBreakdown r now s) = processedThisHour s \<and>
   carBuffer (simulateBreakdown r now s) = carBuffer s"
  using simulateBreakdown_cases [of r now s] by auto

lemma placeCar_conveyor:
  "mainLine (placeCar car coin s) = mainLine s \<and>
   totalCarsProcessed (placeCar car coin s) = totalCarsProcessed s \<and>
   recentSequence (placeCar car coin s) = recentSequence s \<and>
   processedThisHour (placeCar car coin s) = processedThisHour s"
  using placeCar_cases [of car coin s] by (auto simp: unshiftCar_def pushCar_def)

lemma incomingStep_conveyor:
  "mainLine (incomingStep coin s) = mainLine s \<and>
   totalCarsProcessed (incomingStep coin s) = totalCarsProcessed s \<and>
   recentSequence (incomingStep coin s) = recentSequence s \<and>
   processedThisHour (incomingStep coin s) = processedThisHour s"
  by (cases "carBuffer s") (simp_all add: incomingStep_def placeCar_conveyor)

lemma processIncomingCars_conveyor:
  "mainLine (processIncomingCars coins s) = mainLine s \<and>
   totalCarsProcessed (processIncomingCars coins s) = totalCarsProcessed s \<and>
   recentSequence (processIncomingCars coins s) = recentSequence s \<and>
   processedThisHour (processIncomingCars coins s) = processedThisHour s"
proof -
  have "mainLine (fold (\<lambda>i. incomingStep (coins i)) xs s) = mainLine s \<and>
   totalCarsProcessed (fold (\<lambda>i. incomingStep (coins i)) xs s) = totalCarsProcessed s \<and>
   recentSequence (fold (\<lambda>i. incomingStep (coins i)) xs s) = recentSequence s \<and>
   processedThisHour (fold (\<lambda>i. incomingStep (coins i)) xs s) = processedThisHour s" for xs
    by (rule fold_invariant [where P = "\<lambda>t. mainLine t = mainLine s \<and>
          totalCarsProcessed t = totalCarsProcessed s \<and> recentSequence t = recentSequence s \<and>
          processedThisHour t = processedThisHour s"])
       (simp_all add: incomingStep_conveyor)
  then show ?thesis by (simp add: processIncomingCars_eq Let_def)
qed

lemma tick_executed:
  assumes "isRunning s" and "\<not> isPaused s"
  shows "\<exists>s2. mainLine s2 = mainLine s \<and> totalCarsProcessed s2 = totalCarsProcessed s \<and>
           recentSequence s2 = recentSequence s \<and>
           mainLine (tick inp s) = mainLine (processMainLine s2) \<and>
           totalCarsProcessed (tick inp s) = totalCarsProcessed (processMainLine s2) \<and>
           recentSequence (tick inp s) = recentSequence (processMainLine s2)"
proof -
  let ?s1 = "if breakdownRoll inp
             then simulateBreakdown (breakdownPick inp) (breakdownNow inp) s else s"
  let ?s2 = "processIncomingCars (ovenCoins inp) ?s1"
  have "mainLine ?s2 = mainLine s \<and> totalCarsProcessed ?s2 = totalCarsProcessed s \<and>
        recentSequence ?s2 = recentSequence s"
    by (simp add: processIncomingCars_conveyor simulateBreakdown_conveyor)
  moreover have "mainLine (tick inp s) = mainLine (processMainLine ?s2) \<and>
           totalCarsProcessed (tick inp s) = totalCarsProcessed (processMainLine ?s2) \<and>
           recentSequence (tick inp s) = recentSequence (processMainLine ?s2)"
    using assms by (simp add: tick_def Let_def recountAlerts_eq)
  ultimately show ?thesis by blast
qed

lemma processMainLine_empty_slot_counters:
  assumes "currentCar (mainLine s) = None"
  shows "totalCarsProcessed (processMainLine s) = totalCarsProcessed s \<and>
         processedThisHour (processMainLine s) = processedThisHour s \<and>
         recentSequence (processMainLine s) = recentSequence s"
  using processMainLine_empty_slot [OF assms] by auto

text \<open>
  Claim C5. With the conveyor slot empty, \<open>processMainLine\<close> retires nothing (the
  counters and the recent sequence stay as they are) and either does nothing or moves the
  front car of one lane into the slot, leaving the other lanes alone. With the slot
  occupied it retires the occupant: the colour is appended to \<open>recentSequence\<close> (the
  oldest entry dropped when that makes more than 15), \<open>totalCarsProcessed\<close> and
  \<open>processedThisHour\<close> go up by one, \<open>currentCar\<close> and \<open>feedingFrom\<close> are cleared, and
  nothing else changes, so no new car is selected. For a whole executed tick: a tick
  that starts with an empty slot retires no car, and a tick that starts with an occupied
  slot ends with an empty one.
\<close>

theorem one_tick_residency:
  "(currentCar (mainLine s) = None \<longrightarrow>
      totalCarsProcessed (processMainLine s) = totalCarsProcessed s \<and>
      processedThisHour (processMainLine s) = processedThisHour s \<and>
      recentSequence (processMainLine s) = recentSequence s \<and>
      (processMainLine s = s \<or>
       (\<exists>l car rest. cars (lines s l) = car # rest \<and>
          mainLine (processMainLine s) = \<lparr>feedingFrom = Some l, currentCar = Some car\<rparr> \<and>
          cars (lines (processMainLine s) l) = rest \<and>
          (\<forall>k. k \<noteq> l \<longrightarrow> lines (processMainLine s) k = lines s k)))) \<and>
   (currentCar (mainLine s) = Some car \<longrightarrow>
      processMainLine s =
        s\<lparr>recentSequence :=
             (if length (recentSequence s) + 1 > 15 then tl (recentSequence s @ [car])
              else recentSequence s @ [car]),
          totalCarsProcessed := totalCarsProcessed s + 1,
          processedThisHour := processedThisHour s + 1,
          mainLine := \<lparr>feedingFrom = None, currentCar = None\<rparr>\<rparr>) \<and>
   (isRunning s \<and> \<not> isPaused s \<and> currentCar (mainLine s) = None \<longrightarrow>
      totalCarsProcessed (tick inp s) = totalCarsProcessed s \<and>
      recentSequence (tick inp s) = recentSequence s) \<and>
   (isRunning s \<and> \<not> isPaused s \<and> currentCar (mainLine s) = Some car \<longrightarrow>
      mainLine (tick inp s) = \<lparr>feedingFrom = None, currentCar = None\<rparr> \<and>
      totalCarsProcessed (tick inp s) = totalCarsProcessed s + 1 \<and>
      recentSequence (tick inp s) =
        (if length (recentSequence s) + 1 > 15 then tl (recentSequence s @ [car])
         else recentSequence s @ [car]))"
proof (intro conjI impI)
  assume e: "currentCar (mainLine s) = None"
  from processMainLine_empty_slot_counters [OF e]
  show "totalCarsProcessed (processMainLine s) = totalCarsProcessed s"
    and "processedThisHour (processMainLine s) = processedThisHour s"
    and "recentSequence (processMainLine s) = recentSequence s"
    by simp_all
  from processMainLine_empty_slot [OF e]
  show "processMainLine s = s \<or>
       (\<exists>l car rest. cars (lines s l) = car # rest \<and>
          mainLine (processMainLine s) = \<lparr>feedingFrom = Some l, currentCar = Some car\<rparr> \<and>
          cars (lines (processMainLine s) l) = rest \<and>
          (\<forall>k. k \<noteq> l \<longrightarrow> lines (processMainLine s) k = lines s k))"
  proof
    assume "processMainLine s = s"
    then show ?thesis by simp
  next
    assume "\<exists>l car rest. selectNextLine s = Some l \<and> cars (lines s l) = car # rest \<and>
       processMainLine s = (setLine l (popped (lines s l) rest) s)
           \<lparr>mainLine := \<lparr>feedingFrom = Some l, currentCar = Some car\<rparr>\<rparr>"
    then obtain l car rest where "cars (lines s l) = car # rest"
      and "processMainLine s = (setLine l (popped (lines s l) rest) s)
           \<lparr>mainLine := \<lparr>feedingFrom = Some l, currentCar = Some car\<rparr>\<rparr>"
      by blast
    then have "cars (lines s l) = car # rest \<and>
          mainLine (processMainLine s) = \<lparr>feedingFrom = Some l, currentCar = Some car\<rparr> \<and>
          cars (lines (processMainLine s) l) = rest \<and>
          (\<forall>k. k \<noteq> l \<longrightarrow> lines (processMainLine s) k = lines s k)"
      by (simp add: popped_def)
    then show ?thesis by blast
  qed
next
  assume "currentCar (mainLine s) = Some car"
  then show "processMainLine s =
        s\<lparr>recentSequence :=
             (if length (recentSequence s) + 1 > 15 then tl (recentSequence s @ [car])
              else recentSequence s @ [car]),
          totalCarsProcessed := totalCarsProcessed s + 1,
          processedThisHour := processedThisHour s + 1,
          mainLine := \<lparr>feedingFrom = None, currentCar = None\<rparr>\<rparr>"
    by (simp add: processMainLine_occupied)
next
  assume a: "isRunning s \<and> \<not> isPaused s \<and> currentCar (mainLine s) = None"
  then obtain s2 where s2: "mainLine s2 = mainLine s" "totalCarsProcessed s2 = totalCarsProcessed s"
    "recentSequence s2 = recentSequence s"
    "totalCarsProcessed (tick inp s) = totalCarsProcessed (processMainLine s2)"
    "recentSequence (tick inp s) = recentSequence (processMainLine s2)"
    using tick_executed [of s inp] by blast
  from a s2(1) have "currentCar (mainLine s2) = None" by simp
  from processMainLine_empty_slot_counters [OF this] s2
  show "totalCarsProcessed (tick inp s) = totalCarsProcessed s"
    and "recentSequence (tick inp s) = recentSequence s" by simp_all
next
  assume a: "isRunning s \<and> \<not> isPaused s \<and> currentCar (mainLine s) = Some car"
  then obtain s2 where s2: "mainLine s2 = mainLine s" "totalCarsProcessed s2 = totalCarsProcessed s"
    "recentSequence s2 = recentSequence s"
    "mainLine (tick inp s) = mainLine (processMainLine s2)"
    "totalCarsProcessed (tick inp s) = totalCarsProcessed (processMainLine s2)"
    "recentSequence (tick inp s) = recentSequence (processMainLine s2)"
    using tick_executed [of s inp] by blast
  from a s2(1) have occ: "currentCar (mainLine s2) = Some car" by simp
  show "mainLine (tick inp s) = \<lparr>feedingFrom = None, currentCar = None\<rparr>"
    and "totalCarsProcessed (tick inp s) = totalCarsProcessed s + 1"
    and "recentSequence (tick inp s) =
        (if length (recentSequence s) + 1 > 15 then tl (recentSequence s @ [car])
         else recentSequence s @ [car])"
    using s2 by (simp_all add: processMainLine_occupied [OF occ])
qed


theorem one_tick_residency_witness:
  "currentCar (mainLine (start (reset exampleReset))) = None \<and>
   isRunning (start (reset exampleReset)) \<and> \<not> isPaused (start (reset exampleReset)) \<and>
   totalCarsProcessed (tick exampleTick (start (reset exampleReset))) = 0 \<and>
   mainLine (tick exampleTick (start (reset exampleReset))) =
     \<lparr>feedingFrom = Some L2, currentCar = Some C1\<rparr> \<and>
   isRunning (tick exampleTick (start (reset exampleReset))) \<and>
   \<not> isPaused (tick exampleTick (start (reset exampleReset))) \<and>
   mainLine (tick laterTick (tick exampleTick (start (reset exampleReset)))) =
     \<lparr>feedingFrom = None, currentCar = None\<rparr> \<and>
   totalCarsProcessed (tick laterTick (tick exampleTick (start (reset exampleReset)))) = 1 \<and>
   recentSequence (tick laterTick (tick exampleTick (start (reset exampleReset)))) = [C1]"
proof -
  let ?sA = "start (reset exampleReset)"
  let ?sB = "tick exampleTick ?sA"
  have a: "currentCar (mainLine ?sA) = None" "isRunning ?sA" "\<not> isPaused ?sA"
    "totalCarsProcessed ?sA = 0"
    by (simp_all add: start_def reset_def)
  have b1: "mainLine ?sB = \<lparr>feedingFrom = Some L2, currentCar = Some C1\<rparr>" by code_simp
  have b2: "isRunning ?sB" by code_simp
  have b3: "\<not> isPaused ?sB" by code_simp
  have b4: "recentSequence ?sB = []" by code_simp
  from one_tick_residency [of ?sA C1 exampleTick] a
  have t0: "totalCarsProcessed ?sB = 0" by simp
  from b1 have occ: "currentCar (mainLine ?sB) = Some C1" by simp
  from one_tick_residency [of ?sB C1 laterTick] b2 b3 occ
  have "mainLine (tick laterTick ?sB) = \<lparr>feedingFrom = None, currentCar = None\<rparr>"
    and "totalCarsProcessed (tick laterTick ?sB) = totalCarsProcessed ?sB + 1"
    and "recentSequence (tick laterTick ?sB) =
        (if length (recentSequence ?sB) + 1 > 15 then tl (recentSequence ?sB @ [C1])
         else recentSequence ?sB @ [C1])"
    by blast+
  with t0 b4 have c: "mainLine (tick laterTick ?sB) = \<lparr>feedingFrom = None, currentCar = None\<rparr>"
    "totalCarsProcessed (tick laterTick ?sB) = 1" "recentSequence (tick laterTick ?sB) = [C1]"
    by simp_all
  from a(1-3) t0 b1 b2 b3 c show ?thesis by blast
qed


subsection \<open>C6: the breakdown cooldown\<close>

lemma simulateBreakdown_lastBreakdown_mono:
  "lastBreakdown (lines s l) \<le> lastBreakdown (lines (simulateBreakdown r now s) l)"
  using simulateBreakdown_cases [of r now s] by auto

lemma simulateBreakdown_within_cooldown:
  assumes "now - lastBreakdown (lines s l) \<le> 15000"
  shows "lines (simulateBreakdown r now s) l = lines s l"
  using simulateBreakdown_cases [of r now s] assms by auto

lemma simulateBreakdown_marks:
  assumes "lines (simulateBreakdown r now s) l \<noteq> lines s l"
  shows "status (lines (simulateBreakdown r now s) l) = Unavailable \<and>
         lastBreakdown (lines (simulateBreakdown r now s) l) = now"
  using simulateBreakdown_cases [of r now s] assms by (auto split: if_splits)

lemma tick_lines:
  "lines (tick inp s) = lines s \<or>
   lines (tick inp s) = lines (processMainLine (processIncomingCars (ovenCoins inp) s)) \<or>
   (breakdownRoll inp \<and> lines (tick inp s) =
      lines (processMainLine (processIncomingCars (ovenCoins inp)
        (simulateBreakdown (breakdownPick inp) (breakdownNow inp) s))))"
  by (simp add: tick_def Let_def recountAlerts_eq)

lemma tick_lastBreakdown_mono:
  "lastBreakdown (lines s l) \<le> lastBreakdown (lines (tick inp s) l)"
  using tick_lines [of inp s] simulateBreakdown_lastBreakdown_mono [of s l]
  by (auto simp: later_phases_lastBreakdown)

lemma exec_lastBreakdown_mono:
  "\<not> isReset e \<Longrightarrow> lastBreakdown (lines s l) \<le> lastBreakdown (lines (exec e s) l)"
  by (cases e) (simp_all add: tick_lastBreakdown_mono start_def pause_def recoverLine_def)

lemma run_lastBreakdown_mono:
  "\<forall>e\<in>set es. \<not> isReset e \<Longrightarrow> lastBreakdown (lines s l) \<le> lastBreakdown (lines (run es s) l)"
proof (induction es arbitrary: s)
  case Nil
  then show ?case by simp
next
  case (Cons e es)
  have "lastBreakdown (lines s l) \<le> lastBreakdown (lines (exec e s) l)"
    using Cons.prems by (simp add: exec_lastBreakdown_mono)
  also have "\<dots> \<le> lastBreakdown (lines (run es (exec e s)) l)"
    using Cons.prems by (intro Cons.IH) simp
  finally show ?case by simp
qed

lemma tick_marks:
  assumes "status (lines s l) \<noteq> Unavailable" and "status (lines (tick inp s) l) = Unavailable"
  shows "breakdownRoll inp \<and> lastBreakdown (lines (tick inp s) l) = breakdownNow inp"
proof -
  let ?sb = "simulateBreakdown (breakdownPick inp) (breakdownNow inp) s"
  from tick_lines [of inp s] assms
  have roll: "breakdownRoll inp"
    and eq: "lines (tick inp s) = lines (processMainLine (processIncomingCars (ovenCoins inp) ?sb))"
    using later_phases_not_Unavailable [of s l "ovenCoins inp"] by auto
  have "status (lines ?sb l) = Unavailable"
    using assms(2) eq later_phases_not_Unavailable [of ?sb l "ovenCoins inp"] by auto
  with assms(1) have "lines ?sb l \<noteq> lines s l" by auto
  from simulateBreakdown_marks [OF this] have "lastBreakdown (lines ?sb l) = breakdownNow inp"
    by simp
  with roll eq show ?thesis by (simp add: later_phases_lastBreakdown)
qed

lemma tick_within_cooldown:
  assumes "breakdownNow inp - lastBreakdown (lines s l) \<le> 15000"
    and "status (lines s l) \<noteq> Unavailable"
  shows "status (lines (tick inp s) l) \<noteq> Unavailable"
proof
  assume "status (lines (tick inp s) l) = Unavailable"
  from tick_marks [OF assms(2) this]
  have "lastBreakdown (lines (tick inp s) l) = breakdownNow inp" by simp
  moreover
  let ?sb = "simulateBreakdown (breakdownPick inp) (breakdownNow inp) s"
  have "lines ?sb l = lines s l" using assms(1) by (rule simulateBreakdown_within_cooldown)
  then have "status (lines ?sb l) \<noteq> Unavailable" using assms(2) by simp
  then have "status (lines (tick inp s) l) \<noteq> Unavailable"
    using tick_lines [of inp s] assms(2) later_phases_not_Unavailable [of ?sb l "ovenCoins inp"]
      later_phases_not_Unavailable [of s l "ovenCoins inp"]
    by auto
  ultimately show False using \<open>status (lines (tick inp s) l) = Unavailable\<close> by simp
qed

text \<open>
  Claim C6 as stated, for every execution, fails across a reset: \<open>reset\<close> builds the lanes
  anew with \<open>lastBreakdown = 0\<close>. Lane L1 is marked unavailable at time 1700000100000; after a
  reset and a start, the roll at time 1700000101000 marks it again.
\<close>

theorem breakdown_cooldown_counterexample:
  "status (lines (start (reset exampleReset)) L1) = Active \<and>
   status (lines (tick exampleTick (start (reset exampleReset))) L1) = Unavailable \<and>
   lastBreakdown (lines (tick exampleTick (start (reset exampleReset))) L1) = 1700000100000 \<and>
   status (lines (run [Reset exampleReset, Start]
      (tick exampleTick (start (reset exampleReset)))) L1) = Active \<and>
   status (lines (run [Reset exampleReset, Start, Tick laterTick]
      (tick exampleTick (start (reset exampleReset)))) L1) = Unavailable \<and>
   lastBreakdown (lines (run [Reset exampleReset, Start, Tick laterTick]
      (tick exampleTick (start (reset exampleReset)))) L1) = 1700000101000 \<and>
   breakdownNow laterTick = 1700000101000 \<and> (1700000101000 :: int) < 1700000100000 + 15000"
proof -
  have 1: "status (lines (start (reset exampleReset)) L1) = Active" by code_simp
  have 2: "status (lines (tick exampleTick (start (reset exampleReset))) L1) = Unavailable"
    by code_simp
  have 3: "lastBreakdown (lines (tick exampleTick (start (reset exampleReset))) L1) = 1700000100000"
    by code_simp
  have 4: "status (lines (run [Reset exampleReset, Start]
      (tick exampleTick (start (reset exampleReset)))) L1) = Active"
    by (simp add: start_def reset_def initialLines_def initialLine_def)
  have r: "run [Reset exampleReset, Start, Tick laterTick]
      (tick exampleTick (start (reset exampleReset))) = tick laterTick (start (reset exampleReset))"
    by simp
  have 5: "status (lines (tick laterTick (start (reset exampleReset))) L1) = Unavailable"
    by code_simp
  have 6: "lastBreakdown (lines (tick laterTick (start (reset exampleReset))) L1) = 1700000101000"
    by code_simp
  have 7: "breakdownNow laterTick = 1700000101000" by (simp add: laterTick_def)
  from 1 2 3 4 5 6 7 show ?thesis unfolding r by simp
qed

text \<open>
  Claim C6, amended. If a tick takes a lane to \<open>unavailable\<close>, the lane's
  \<open>lastBreakdown\<close> is the time \<open>T\<close> of that tick's breakdown roll. From a state in which
  the lane's \<open>lastBreakdown\<close> is \<open>T\<close>, after any sequence of events without a reset, a
  breakdown roll at a time up to \<open>T + 15000\<close> leaves the lane as it is, whatever lane the
  draw picks, and a tick whose roll is at such a time does not take the lane to
  \<open>unavailable\<close>.
\<close>

theorem breakdown_cooldown:
  "(status (lines s0 l) \<noteq> Unavailable \<and> status (lines (tick inp s0) l) = Unavailable \<longrightarrow>
      breakdownRoll inp \<and> lastBreakdown (lines (tick inp s0) l) = breakdownNow inp) \<and>
   (lastBreakdown (lines s l) = T \<and> (\<forall>e\<in>set es. \<not> isReset e) \<and> now \<le> T + 15000 \<longrightarrow>
      lines (simulateBreakdown r now (run es s)) l = lines (run es s) l) \<and>
   (lastBreakdown (lines s l) = T \<and> (\<forall>e\<in>set es. \<not> isReset e) \<and>
    breakdownNow inp' \<le> T + 15000 \<and> status (lines (run es s) l) \<noteq> Unavailable \<longrightarrow>
      status (lines (tick inp' (run es s)) l) \<noteq> Unavailable)"
proof (intro conjI impI)
  assume "status (lines s0 l) \<noteq> Unavailable \<and> status (lines (tick inp s0) l) = Unavailable"
  then show "breakdownRoll inp" and "lastBreakdown (lines (tick inp s0) l) = breakdownNow inp"
    using tick_marks [of s0 l inp] by simp_all
next
  assume a: "lastBreakdown (lines s l) = T \<and> (\<forall>e\<in>set es. \<not> isReset e) \<and> now \<le> T + 15000"
  then have "T \<le> lastBreakdown (lines (run es s) l)"
    using run_lastBreakdown_mono [of es s l] by simp
  with a have "now - lastBreakdown (lines (run es s) l) \<le> 15000" by simp
  then show "lines (simulateBreakdown r now (run es s)) l = lines (run es s) l"
    by (rule simulateBreakdown_within_cooldown)
next
  assume a: "lastBreakdown (lines s l) = T \<and> (\<forall>e\<in>set es. \<not> isReset e) \<and>
    breakdownNow inp' \<le> T + 15000 \<and> status (lines (run es s) l) \<noteq> Unavailable"
  then have "T \<le> lastBreakdown (lines (run es s) l)"
    using run_lastBreakdown_mono [of es s l] by simp
  with a have "breakdownNow inp' - lastBreakdown (lines (run es s) l) \<le> 15000" by simp
  with a show "status (lines (tick inp' (run es s)) l) \<noteq> Unavailable"
    using tick_within_cooldown by blast
qed

theorem breakdown_cooldown_witness:
  "status (lines (start (reset exampleReset)) L1) \<noteq> Unavailable \<and>
   status (lines (tick exampleTick (start (reset exampleReset))) L1) = Unavailable \<and>
   lastBreakdown (lines (tick exampleTick (start (reset exampleReset))) L1) = 1700000100000 \<and>
   status (lines (run [Pause, Recover L1, Start] (tick exampleTick (start (reset exampleReset)))) L1)
     = Active \<and>
   lines (simulateBreakdown 0 1700000101000
       (run [Pause, Recover L1, Start] (tick exampleTick (start (reset exampleReset))))) L1 =
     lines (run [Pause, Recover L1, Start] (tick exampleTick (start (reset exampleReset)))) L1 \<and>
   status (lines (tick laterTick
       (run [Pause, Recover L1, Start] (tick exampleTick (start (reset exampleReset))))) L1)
     \<noteq> Unavailable"
proof -
  let ?sA = "start (reset exampleReset)"
  let ?sB = "tick exampleTick ?sA"
  let ?es = "[Pause, Recover L1, Start]"
  have 1: "status (lines ?sA L1) \<noteq> Unavailable" by code_simp
  have 2: "status (lines ?sB L1) = Unavailable" by code_simp
  have now: "breakdownNow exampleTick = 1700000100000" "breakdownNow laterTick = 1700000101000"
    by (simp_all add: exampleTick_def laterTick_def)
  from breakdown_cooldown [where ?s0.0 = ?sA and l = L1 and inp = exampleTick] 1 2 now
  have 3: "lastBreakdown (lines ?sB L1) = 1700000100000" by simp
  have es: "\<forall>e\<in>set ?es. \<not> isReset e" by simp
  have 4: "status (lines (run ?es ?sB) L1) = Active"
    using 2 by (simp add: pause_def start_def recoverLine_def setLine_def)
  from breakdown_cooldown [where s = ?sB and l = L1 and T = 1700000100000 and es = ?es and now = 1700000101000
      and r = 0 and inp' = laterTick] 3 es 4 now
  have 5: "lines (simulateBreakdown 0 1700000101000 (run ?es ?sB)) L1 = lines (run ?es ?sB) L1"
    and 6: "status (lines (tick laterTick (run ?es ?sB)) L1) \<noteq> Unavailable"
    by simp_all
  from 1 2 3 4 5 6 show ?thesis by blast
qed

subsection \<open>C3: lane selection\<close>

lemma js_sort_sort_key:
  fixes key :: "'a \<Rightarrow> int"
  shows "js_sort (\<lambda>a b. key a - key b) xs = sort_key key xs"
proof -
  have "insert_by (\<lambda>a b. key a - key b) x ys = insort_key key x ys" for x ys
    by (induction ys) simp_all
  then show ?thesis by (induction xs) (simp_all add: js_sort_Cons)
qed

lemma find_filter: "find P (filter E xs) = find (\<lambda>x. E x \<and> P x) xs"
  by (induction xs) simp_all

lemma find_Some_split:
  "find Q xs = Some x \<Longrightarrow> \<exists>pre post. xs = pre @ x # post \<and> Q x \<and> (\<forall>k\<in>set pre. \<not> Q k)"
proof (induction xs)
  case Nil
  then show ?case by simp
next
  case (Cons y ys)
  show ?case
  proof (cases "Q y")
    case True
    with Cons.prems have "y = x" by simp
    with True have "y # ys = [] @ x # ys \<and> Q x \<and> (\<forall>k\<in>set []. \<not> Q k)" by simp
    then show ?thesis by blast
  next
    case False
    with Cons obtain pre post where "ys = pre @ x # post" "Q x" "\<forall>k\<in>set pre. \<not> Q k"
      by auto
    with False have "y # ys = (y # pre) @ x # post \<and> Q x \<and> (\<forall>k\<in>set (y # pre). \<not> Q k)"
      by simp
    then show ?thesis by blast
  qed
qed

lemma filter_split:
  "filter P xs = pre' @ m # post' \<Longrightarrow>
   \<exists>pre post. xs = pre @ m # post \<and> filter P pre = pre' \<and> filter P post = post' \<and> P m"
proof (induction xs arbitrary: pre')
  case Nil
  then show ?case by simp
next
  case (Cons x xs)
  show ?case
  proof (cases "P x")
    case False
    with Cons.prems have "filter P xs = pre' @ m # post'" by simp
    from Cons.IH [OF this] obtain pre post where
      "xs = pre @ m # post" "filter P pre = pre'" "filter P post = post'" "P m" by blast
    with False have "x # xs = (x # pre) @ m # post \<and> filter P (x # pre) = pre' \<and>
        filter P post = post' \<and> P m" by simp
    then show ?thesis by blast
  next
    case True
    show ?thesis
    proof (cases pre')
      case Nil
      with True Cons.prems have "x = m" "filter P xs = post'" by simp_all
      with True have "x # xs = [] @ m # xs \<and> filter P [] = pre' \<and> filter P xs = post' \<and> P m"
        using Nil by simp
      then show ?thesis by blast
    next
      case (Cons a pre'')
      with True Cons.prems have "x = a" "filter P xs = pre'' @ m # post'" by simp_all
      from Cons.IH [OF this(2)] obtain pre post where
        "xs = pre @ m # post" "filter P pre = pre''" "filter P post = post'" "P m" by blast
      with True \<open>x = a\<close> Cons have "x # xs = (x # pre) @ m # post \<and> filter P (x # pre) = pre' \<and>
        filter P post = post' \<and> P m" by simp
      then show ?thesis by blast
    qed
  qed
qed

lemma findBestLine_continuation:
  assumes "find (\<lambda>l. eligible ov s l \<and> continues color s l \<and> hasSpare s l) lineIds = Some l"
  shows "findBestLine color ov s = Some l"
proof -
  have "(\<lambda>l. (oven (lines s l) = ov \<and> status (lines s l) \<noteq> Unavailable) \<and>
              length (cars (lines s l)) > 0 \<and> last (cars (lines s l)) = color \<and>
              length (cars (lines s l)) < capacity (lines s l)) =
        (\<lambda>l. eligible ov s l \<and> continues color s l \<and> hasSpare s l)"
    by (auto simp: eligible_def continues_def hasSpare_def)
  then have "find (\<lambda>l. length (cars (lines s l)) > 0 \<and> last (cars (lines s l)) = color \<and>
        length (cars (lines s l)) < capacity (lines s l)) (getAvailableLines ov s) = Some l"
    using assms unfolding getAvailableLines_def find_filter by simp
  then show ?thesis by (simp add: findBestLine_def Let_def)
qed

lemma findBestLine_fallback:
  assumes "find (\<lambda>l. eligible ov s l \<and> continues color s l \<and> hasSpare s l) lineIds = None"
  shows "findBestLine color ov s =
    (if filter (\<lambda>l. eligible ov s l \<and> hasSpare s l) lineIds = [] then None
     else Some (hd (js_sort (\<lambda>a b. int (length (cars (lines s a))) - int (length (cars (lines s b))))
            (filter (\<lambda>l. eligible ov s l \<and> hasSpare s l) lineIds))))"
proof -
  have "(\<lambda>l. (oven (lines s l) = ov \<and> status (lines s l) \<noteq> Unavailable) \<and>
              length (cars (lines s l)) > 0 \<and> last (cars (lines s l)) = color \<and>
              length (cars (lines s l)) < capacity (lines s l)) =
        (\<lambda>l. eligible ov s l \<and> continues color s l \<and> hasSpare s l)"
    by (auto simp: eligible_def continues_def hasSpare_def)
  then have none: "find (\<lambda>l. length (cars (lines s l)) > 0 \<and> last (cars (lines s l)) = color \<and>
        length (cars (lines s l)) < capacity (lines s l)) (getAvailableLines ov s) = None"
    using assms unfolding getAvailableLines_def find_filter by simp
  have "filter (\<lambda>l. length (cars (lines s l)) < capacity (lines s l)) (getAvailableLines ov s) =
        filter (\<lambda>l. eligible ov s l \<and> hasSpare s l) lineIds"
    by (simp add: getAvailableLines_def eligible_def hasSpare_def)
  with none show ?thesis by (simp add: findBestLine_def Let_def)
qed

text \<open>
  Claim C3. For every state, colour and oven: if some eligible lane of the oven continues
  the colour and has spare capacity, \<open>findBestLine\<close> returns such a lane (the first in
  \<open>Object.keys\<close> order), whatever the other lanes hold; otherwise, if some eligible lane has
  spare capacity, it returns the eligible lane with spare capacity that holds the fewest
  cars, the first in key order among those with the fewest; otherwise it returns null.
\<close>

theorem findBestLine_postcondition:
  "((\<exists>l. eligible ov s l \<and> continues color s l \<and> hasSpare s l) \<longrightarrow>
      (\<exists>l pre post. findBestLine color ov s = Some l \<and>
         eligible ov s l \<and> continues color s l \<and> hasSpare s l \<and>
         lineIds = pre @ l # post \<and>
         (\<forall>k\<in>set pre. \<not> (eligible ov s k \<and> continues color s k \<and> hasSpare s k)))) \<and>
   (\<not> (\<exists>l. eligible ov s l \<and> continues color s l \<and> hasSpare s l) \<and>
    (\<exists>l. eligible ov s l \<and> hasSpare s l) \<longrightarrow>
      (\<exists>l pre post. findBestLine color ov s = Some l \<and> eligible ov s l \<and> hasSpare s l \<and>
         lineIds = pre @ l # post \<and>
         (\<forall>k\<in>set pre. eligible ov s k \<and> hasSpare s k \<longrightarrow>
            length (cars (lines s l)) < length (cars (lines s k))) \<and>
         (\<forall>k\<in>set post. eligible ov s k \<and> hasSpare s k \<longrightarrow>
            length (cars (lines s l)) \<le> length (cars (lines s k))))) \<and>
   (\<not> (\<exists>l. eligible ov s l \<and> hasSpare s l) \<longrightarrow> findBestLine color ov s = None)"
proof (intro conjI impI)
  let ?Q = "\<lambda>l. eligible ov s l \<and> continues color s l \<and> hasSpare s l"
  assume "\<exists>l. ?Q l"
  then have "find ?Q lineIds \<noteq> None" by (simp add: find_None_iff)
  then obtain l where f: "find ?Q lineIds = Some l" by blast
  from find_Some_split [OF f] obtain pre post where
    "lineIds = pre @ l # post" "?Q l" "\<forall>k\<in>set pre. \<not> ?Q k" by blast
  with findBestLine_continuation [OF f]
  show "\<exists>l pre post. findBestLine color ov s = Some l \<and>
         eligible ov s l \<and> continues color s l \<and> hasSpare s l \<and>
         lineIds = pre @ l # post \<and>
         (\<forall>k\<in>set pre. \<not> (eligible ov s k \<and> continues color s k \<and> hasSpare s k))"
    by blast
next
  let ?Q = "\<lambda>l. eligible ov s l \<and> continues color s l \<and> hasSpare s l"
  let ?R = "\<lambda>l. eligible ov s l \<and> hasSpare s l"
  let ?key = "\<lambda>l. int (length (cars (lines s l)))"
  let ?nf = "filter ?R lineIds"
  assume a: "\<not> (\<exists>l. ?Q l) \<and> (\<exists>l. ?R l)"
  then have none: "find ?Q lineIds = None" by (simp add: find_None_iff)
  from a have ne: "?nf \<noteq> []" by (auto simp: filter_empty_conv)
  define m where "m = hd (js_sort (\<lambda>a b. ?key a - ?key b) ?nf)"
  from findBestLine_fallback [OF none] ne have res: "findBestLine color ov s = Some m"
    by (simp add: m_def)
  from hd_js_sort_first_min [OF ne, of ?key] obtain pre' post' where
    split: "?nf = pre' @ m # post'" and
    lt: "\<forall>y\<in>set pre'. ?key m < ?key y" and le: "\<forall>y\<in>set post'. ?key m \<le> ?key y"
    unfolding m_def by blast
  from filter_split [OF split] obtain pre post where
    ids: "lineIds = pre @ m # post" and pre: "filter ?R pre = pre'" and
    post: "filter ?R post = post'" and m: "?R m"
    by blast
  have "\<forall>k\<in>set pre. ?R k \<longrightarrow> length (cars (lines s m)) < length (cars (lines s k))"
    using lt pre by auto
  moreover have "\<forall>k\<in>set post. ?R k \<longrightarrow> length (cars (lines s m)) \<le> length (cars (lines s k))"
    using le post by auto
  ultimately show "\<exists>l pre post. findBestLine color ov s = Some l \<and> eligible ov s l \<and> hasSpare s l \<and>
         lineIds = pre @ l # post \<and>
         (\<forall>k\<in>set pre. eligible ov s k \<and> hasSpare s k \<longrightarrow>
            length (cars (lines s l)) < length (cars (lines s k))) \<and>
         (\<forall>k\<in>set post. eligible ov s k \<and> hasSpare s k \<longrightarrow>
            length (cars (lines s l)) \<le> length (cars (lines s k)))"
    using res ids m by blast
next
  let ?Q = "\<lambda>l. eligible ov s l \<and> continues color s l \<and> hasSpare s l"
  assume a: "\<not> (\<exists>l. eligible ov s l \<and> hasSpare s l)"
  then have "find ?Q lineIds = None" by (simp add: find_None_iff)
  from findBestLine_fallback [OF this] a show "findBestLine color ov s = None"
    by (simp add: filter_empty_conv)
qed


lemma ex_lane: "(\<exists>l. P l) \<longleftrightarrow> P L1 \<or> P L2 \<or> P L3 \<or> P L4 \<or> P L5 \<or> P L6 \<or> P L7 \<or> P L8 \<or> P L9"
proof -
  have "(\<exists>l. P l) \<longleftrightarrow> (\<exists>l\<in>set lineIds. P l)" by (auto simp: set_lineIds)
  then show ?thesis by (simp add: lineIds_def)
qed


theorem findBestLine_postcondition_witness:
  "eligible O1 twoLaneState L3 \<and> continues C1 twoLaneState L3 \<and> hasSpare twoLaneState L3 \<and>
   findBestLine C1 O1 twoLaneState = Some L3 \<and>
   findBestLine C5 O1 twoLaneState = Some L2 \<and>
   eligible O1 twoLaneState L2 \<and> hasSpare twoLaneState L2 \<and>
   findBestLine C1 O1 blockedState = None"
proof -
  have q3: "eligible O1 twoLaneState L3" "continues C1 twoLaneState L3" "hasSpare twoLaneState L3"
    by (simp_all add: eligible_def continues_def hasSpare_def twoLaneState_def)
  have e1: "findBestLine C1 O1 twoLaneState = Some L3" by code_simp
  have e5: "findBestLine C5 O1 twoLaneState = Some L2" by code_simp
  have no5: "\<not> (\<exists>l. eligible O1 twoLaneState l \<and> continues C5 twoLaneState l \<and> hasSpare twoLaneState l)"
    unfolding ex_lane
    by (simp add: eligible_def continues_def hasSpare_def twoLaneState_def initialLines_def
          initialLine_def)
  have r2: "eligible O1 twoLaneState L2 \<and> hasSpare twoLaneState L2"
    by (simp add: eligible_def hasSpare_def twoLaneState_def initialLines_def initialLine_def)
  have noB: "\<not> (\<exists>l. eligible O1 blockedState l \<and> hasSpare blockedState l)"
    unfolding ex_lane
    by (simp add: eligible_def hasSpare_def blockedState_def brokenLane_def fullLane_def)
  from q3 have ex3: "\<exists>l. eligible O1 twoLaneState l \<and> continues C1 twoLaneState l \<and>
      hasSpare twoLaneState l" by blast
  from findBestLine_postcondition [of O1 twoLaneState C1, THEN conjunct1, THEN mp, OF ex3]
  obtain l where "findBestLine C1 O1 twoLaneState = Some l" "eligible O1 twoLaneState l"
    "continues C1 twoLaneState l" "hasSpare twoLaneState l" by blast
  with e1 have a: "eligible O1 twoLaneState L3 \<and> continues C1 twoLaneState L3 \<and>
      hasSpare twoLaneState L3" by simp
  from r2 have ex2: "\<exists>l. eligible O1 twoLaneState l \<and> hasSpare twoLaneState l" by blast
  from findBestLine_postcondition [of O1 twoLaneState C5, THEN conjunct2, THEN conjunct1, THEN mp,
      OF conjI [OF no5 ex2]]
  obtain k where "findBestLine C5 O1 twoLaneState = Some k" "eligible O1 twoLaneState k"
    "hasSpare twoLaneState k" by blast
  with e5 have b: "eligible O1 twoLaneState L2 \<and> hasSpare twoLaneState L2" by simp
  from findBestLine_postcondition [of O1 blockedState C1, THEN conjunct2, THEN conjunct2, THEN mp,
      OF noB]
  have c: "findBestLine C1 O1 blockedState = None" .
  from a b c e1 e5 show ?thesis by blast
qed



subsection \<open>C4: release selection\<close>

lemma firstSeen_snoc:
  "firstSeen (xs @ [x]) = (if x \<in> set xs then firstSeen xs else firstSeen xs @ [x])"
  by (simp add: firstSeen_def)

lemma set_firstSeen [simp]: "set (firstSeen xs) = set xs"
  by (simp add: firstSeen_def)

lemma distinct_firstSeen [simp]: "distinct (firstSeen xs)"
  by (simp add: firstSeen_def)

lemma firstSeen_Nil [simp]: "firstSeen [] = []"
  by (simp add: firstSeen_def)

lemma firstSeen_first_occurrence:
  "x \<notin> set a \<Longrightarrow> \<exists>rest. firstSeen (a @ x # b) = firstSeen a @ x # rest"
proof (induction b rule: rev_induct)
  case Nil
  then show ?case by (simp add: firstSeen_snoc)
next
  case (snoc y b)
  then obtain rest where r: "firstSeen (a @ x # b) = firstSeen a @ x # rest" by blast
  have "firstSeen (a @ x # b @ [y]) = firstSeen ((a @ x # b) @ [y])" by simp
  also have "\<dots> = (if y \<in> set (a @ x # b) then firstSeen (a @ x # b)
                     else firstSeen (a @ x # b) @ [y])"
    by (rule firstSeen_snoc)
  finally show ?case using r by auto
qed

lemma firstSeen_before:
  assumes "x \<notin> set a" and "firstSeen (a @ x # b) = pre @ x # post"
  shows "set pre = set a"
proof -
  from firstSeen_first_occurrence [OF assms(1), of b] obtain rest where
    r: "firstSeen (a @ x # b) = firstSeen a @ x # rest" by blast
  have d: "distinct (pre @ x # post)" using assms(2) distinct_firstSeen [of "a @ x # b"] by simp
  from r assms(2) have "firstSeen a @ x # rest = pre @ x # post" by simp
  moreover have "x \<notin> set (firstSeen a)" using assms(1) by simp
  moreover have "x \<notin> set pre" using d by auto
  ultimately have "firstSeen a = pre"
    by (metis append_Cons_eq_iff d distinct.simps(2) distinct_append)
  then show ?thesis using set_firstSeen [of a] by simp
qed

subsection \<open>colorGroups\<close>

lemma addToGroup_map:
  "distinct cs \<Longrightarrow>
   addToGroup c l (map (\<lambda>k. (k, f k)) cs) =
     (if c \<in> set cs then map (\<lambda>k. (k, if k = c then f k @ [l] else f k)) cs
      else map (\<lambda>k. (k, f k)) cs @ [(c, [l])])"
  by (induction cs) auto

lemma colorGroups_snoc:
  "colorGroups s (ls @ [l]) = addToGroup (hd (cars (lines s l))) l (colorGroups s ls)"
  by (simp add: colorGroups_def)

lemma colorGroups_eq:
  "colorGroups s ls =
     map (\<lambda>c. (c, filter (\<lambda>l. frontColor s l = c) ls)) (firstSeen (map (frontColor s) ls))"
proof (induction ls rule: rev_induct)
  case Nil
  then show ?case by (simp add: colorGroups_def)
next
  case (snoc l ls)
  let ?c = "frontColor s l"
  let ?cs = "firstSeen (map (frontColor s) ls)"
  let ?F = "\<lambda>xs c. filter (\<lambda>l. frontColor s l = c) xs"
  have step: "colorGroups s (ls @ [l]) = addToGroup ?c l (map (\<lambda>c. (c, ?F ls c)) ?cs)"
    by (simp only: colorGroups_snoc snoc.IH frontColor_def [symmetric])
  show ?case
  proof (cases "?c \<in> set (map (frontColor s) ls)")
    case True
    then have "colorGroups s (ls @ [l]) =
        map (\<lambda>k. (k, if k = ?c then ?F ls k @ [l] else ?F ls k)) ?cs"
      unfolding step by (subst addToGroup_map) simp_all
    also have "\<dots> = map (\<lambda>k. (k, ?F (ls @ [l]) k)) ?cs" by auto
    also have "?cs = firstSeen (map (frontColor s) (ls @ [l]))"
      using True by (simp add: firstSeen_snoc)
    finally show ?thesis .
  next
    case False
    have "frontColor s x \<noteq> ?c" if "x \<in> set ls" for x
    proof
      assume "frontColor s x = ?c"
      with that have "?c \<in> set (map (frontColor s) ls)" by (metis imageI set_map)
      with False show False by simp
    qed
    then have empty: "?F ls ?c = []" by (simp add: filter_empty_conv)
    from False have "colorGroups s (ls @ [l]) = map (\<lambda>k. (k, ?F ls k)) ?cs @ [(?c, [l])]"
      unfolding step by (subst addToGroup_map) simp_all
    also have "map (\<lambda>k. (k, ?F ls k)) ?cs = map (\<lambda>k. (k, ?F (ls @ [l]) k)) ?cs"
      using False by auto
    also have "[(?c, [l])] = map (\<lambda>k. (k, ?F (ls @ [l]) k)) [?c]"
      using empty by simp
    finally have "colorGroups s (ls @ [l]) = map (\<lambda>k. (k, ?F (ls @ [l]) k)) (?cs @ [?c])"
      by simp
    moreover have "?cs @ [?c] = firstSeen (map (frontColor s) (ls @ [l]))"
      using False by (simp add: firstSeen_snoc)
    ultimately show ?thesis by simp
  qed
qed

lemma foldl_add_sum_list:
  "foldl (\<lambda>sum l. sum + f l) a ls = a + sum_list (map f ls)"
  for f :: "'b \<Rightarrow> nat"
  by (induction ls arbitrary: a) simp_all

lemma groupTotal_eq:
  "groupTotal s (c, ls) = sum_list (map (\<lambda>l. length (filter (\<lambda>x. x = c) (cars (lines s l)))) ls)"
  by (simp add: groupTotal_def foldl_add_sum_list)

lemma groupTotal_runWeight:
  "groupTotal s (c, filter (\<lambda>l. frontColor s l = c) (filter (candidate s) lineIds)) = runWeight s c"
  by (simp add: groupTotal_eq runWeight_def)


lemma selectNextLine_eq:
  "selectNextLine s =
     (if filter (candidate s) lineIds = [] then None
      else (case snd (hd (js_sort (\<lambda>a b. int (groupTotal s b) - int (groupTotal s a))
                         (colorGroups s (filter (candidate s) lineIds)))) of
              [] \<Rightarrow> None | l # _ \<Rightarrow> Some l))"
proof -
  have c: "(\<lambda>l. status (lines s l) \<noteq> Unavailable \<and> length (cars (lines s l)) > 0) = candidate s"
    by (rule ext) (simp add: candidate_def)
  have ne: "colorGroups s ls \<noteq> []" if "ls \<noteq> []" for ls
    using that by (simp add: colorGroups_eq) (metis set_firstSeen set_empty map_is_Nil_conv)
  show ?thesis
    unfolding selectNextLine_def c Let_def using ne by simp
qed

text \<open>
  Claim C4. For every state: with no candidate lane \<open>selectNextLine\<close> returns null.
  Otherwise it returns a candidate lane \<open>l\<close> such that every candidate before \<open>l\<close> in key
  order has a front colour of strictly smaller run weight, and every candidate after \<open>l\<close>
  one of at most the same run weight. So the colour at the front of \<open>l\<close> has the largest
  run weight, \<open>l\<close> is the first lane of its group, and among groups of equal weight the one
  met first in key order wins.
\<close>

theorem selectNextLine_postcondition:
  "(\<not> (\<exists>l. candidate s l) \<longrightarrow> selectNextLine s = None) \<and>
   ((\<exists>l. candidate s l) \<longrightarrow>
      (\<exists>l pre post. selectNextLine s = Some l \<and> candidate s l \<and> lineIds = pre @ l # post \<and>
         (\<forall>k\<in>set pre. candidate s k \<longrightarrow>
            runWeight s (frontColor s k) < runWeight s (frontColor s l)) \<and>
         (\<forall>k\<in>set post. candidate s k \<longrightarrow>
            runWeight s (frontColor s k) \<le> runWeight s (frontColor s l))))"
proof (intro conjI impI)
  assume "\<not> (\<exists>l. candidate s l)"
  then have "filter (candidate s) lineIds = []" by (simp add: filter_empty_conv)
  then show "selectNextLine s = None" by (simp add: selectNextLine_eq)
next
  assume ex: "\<exists>l. candidate s l"
  let ?avail = "filter (candidate s) lineIds"
  let ?fronts = "map (frontColor s) ?avail"
  let ?F = "\<lambda>c. filter (\<lambda>l. frontColor s l = c) ?avail"
  let ?G = "colorGroups s ?avail"
  let ?key = "\<lambda>g. - int (groupTotal s g)"
  let ?cmp = "\<lambda>a b. int (groupTotal s b) - int (groupTotal s a)"
  have cmp: "?cmp = (\<lambda>a b. ?key a - ?key b)" by (intro ext) simp
  from ex have avail_ne: "?avail \<noteq> []" by (auto simp: filter_empty_conv)
  have G: "?G = map (\<lambda>c. (c, ?F c)) (firstSeen ?fronts)" by (rule colorGroups_eq)
  have G_ne: "?G \<noteq> []"
    using avail_ne unfolding G by (metis set_firstSeen set_empty map_is_Nil_conv)
  define g where "g = hd (js_sort ?cmp ?G)"
  from hd_js_sort_first_min [OF G_ne, of ?key] obtain Gpre Gpost where
    Gsplit: "?G = Gpre @ g # Gpost" and
    Glt: "\<forall>y\<in>set Gpre. groupTotal s y < groupTotal s g" and
    Gle: "\<forall>y\<in>set Gpost. groupTotal s y \<le> groupTotal s g"
    unfolding g_def cmp by auto
  define c where "c = fst g"
  have "g \<in> set ?G" using Gsplit by simp
  then have g: "g = (c, ?F c)" and c_in: "c \<in> set ?fronts"
    unfolding G c_def by auto
  have weight: "groupTotal s (k, ?F k) = runWeight s k" for k
    by (rule groupTotal_runWeight)
  from c_in have Fc_ne: "?F c \<noteq> []" by (auto simp: filter_empty_conv)
  then obtain l rest where Fc: "?F c = l # rest" by (cases "?F c") auto
  have res: "selectNextLine s = Some l"
    using avail_ne Fc g by (simp add: selectNextLine_eq g_def [symmetric])
  from Fc obtain us vs where avail: "?avail = us @ l # vs" and
    us: "\<forall>u\<in>set us. frontColor s u \<noteq> c" and l: "frontColor s l = c"
    using filter_eq_Cons_iff [of "\<lambda>l. frontColor s l = c" ?avail l rest] by blast
  from filter_split [of "candidate s" lineIds us l vs] avail obtain pre post where
    ids: "lineIds = pre @ l # post" and pre: "filter (candidate s) pre = us" and
    post: "filter (candidate s) post = vs" and cand: "candidate s l"
    by blast
  have fronts: "?fronts = map (frontColor s) us @ c # map (frontColor s) vs"
    using avail l by simp
  have c_notin: "c \<notin> set (map (frontColor s) us)" using us by auto
  have keys: "firstSeen ?fronts = map fst Gpre @ c # map fst Gpost"
  proof -
    have "map fst ?G = firstSeen ?fronts" unfolding G by (simp add: comp_def)
    then show ?thesis using Gsplit c_def by simp
  qed
  have before: "set (map fst Gpre) = set (map (frontColor s) us)"
    using firstSeen_before [OF c_notin, of "map (frontColor s) vs" "map fst Gpre" "map fst Gpost"]
      keys fronts by simp
  have member: "(k, ?F k) \<in> set ?G" if "k \<in> set ?fronts" for k
    using that unfolding G by auto
  have pre_lt: "runWeight s (frontColor s k) < runWeight s (frontColor s l)"
    if "k \<in> set pre" "candidate s k" for k
  proof -
    from that pre have "k \<in> set us" by auto
    then have "frontColor s k \<in> set (map fst Gpre)" using before by auto
    then obtain ls where in_pre: "(frontColor s k, ls) \<in> set Gpre" by auto
    then have "(frontColor s k, ls) \<in> set ?G" using Gsplit by simp
    then have "ls = ?F (frontColor s k)" unfolding G by auto
    with in_pre Glt have "groupTotal s (frontColor s k, ?F (frontColor s k)) < groupTotal s g"
      by auto
    then show ?thesis using g l weight by simp
  qed
  have post_le: "runWeight s (frontColor s k) \<le> runWeight s (frontColor s l)"
    if "k \<in> set post" "candidate s k" for k
  proof -
    from that ids have "k \<in> set ?avail" by simp
    then have "frontColor s k \<in> set ?fronts" by simp
    from member [OF this] have "(frontColor s k, ?F (frontColor s k)) \<in> set (Gpre @ g # Gpost)"
      using Gsplit by simp
    then have "groupTotal s (frontColor s k, ?F (frontColor s k)) \<le> groupTotal s g"
      using Glt Gle by (auto simp: less_imp_le)
    then show ?thesis using g l weight by simp
  qed
  from res cand ids pre_lt post_le
  show "\<exists>l pre post. selectNextLine s = Some l \<and> candidate s l \<and> lineIds = pre @ l # post \<and>
         (\<forall>k\<in>set pre. candidate s k \<longrightarrow>
            runWeight s (frontColor s k) < runWeight s (frontColor s l)) \<and>
         (\<forall>k\<in>set post. candidate s k \<longrightarrow>
            runWeight s (frontColor s k) \<le> runWeight s (frontColor s l))"
    by blast
qed

theorem selectNextLine_postcondition_witness:
  "candidate threeLaneState L4 \<and> selectNextLine threeLaneState = Some L4 \<and>
   frontColor threeLaneState L4 = C1 \<and> runWeight threeLaneState C1 = 3 \<and>
   frontColor threeLaneState L2 = C3 \<and> runWeight threeLaneState C3 = 1 \<and>
   frontColor threeLaneState L7 = C5 \<and> runWeight threeLaneState C5 = 3 \<and>
   selectNextLine (reset exampleReset) = None"
proof -
  have c4: "candidate threeLaneState L4"
    by (simp add: candidate_def threeLaneState_def)
  have sel: "selectNextLine threeLaneState = Some L4" by code_simp
  have f: "frontColor threeLaneState L4 = C1" "frontColor threeLaneState L2 = C3"
    "frontColor threeLaneState L7 = C5"
    by (simp_all add: frontColor_def threeLaneState_def)
  have w: "runWeight threeLaneState C1 = 3" "runWeight threeLaneState C3 = 1"
    "runWeight threeLaneState C5 = 3"
    by code_simp+
  have none: "\<not> (\<exists>l. candidate (reset exampleReset) l)"
    unfolding ex_lane by (simp add: candidate_def reset_def initialLines_def initialLine_def)
  from c4 have ex: "\<exists>l. candidate threeLaneState l" ..
  from selectNextLine_postcondition [of threeLaneState, THEN conjunct2, THEN mp, OF ex]
  obtain l where "selectNextLine threeLaneState = Some l" "candidate threeLaneState l" by blast
  with sel have a: "candidate threeLaneState L4" by simp
  from selectNextLine_postcondition [of "reset exampleReset", THEN conjunct1, THEN mp, OF none]
  have b: "selectNextLine (reset exampleReset) = None" .
  from a sel f w b show ?thesis by blast
qed


subsection \<open>C9: requeue at the front\<close>

lemma ovens_unchanged:
  "ovens (simulateBreakdown r now s) = ovens s"
  "ovens (placeCar car coin s) = ovens s"
  "ovens (recoverLine l s) = ovens s"
  "ovens (recountAlerts s) = ovens s"
  using simulateBreakdown_cases [of r now s] placeCar_cases [of car coin s]
  by (auto simp: unshiftCar_def pushCar_def recoverLine_def recountAlerts_eq)

lemma ovens_incomingStep: "ovens (incomingStep coin s) = ovens s"
  by (cases "carBuffer s") (simp_all add: incomingStep_def ovens_unchanged)

lemma ovens_processIncomingCars: "ovens (processIncomingCars coins s) = ovens s"
proof -
  have "ovens (fold (\<lambda>i. incomingStep (coins i)) xs s) = ovens s" for xs
    by (rule fold_invariant [where P = "\<lambda>t. ovens t = ovens s"])
       (simp_all add: ovens_incomingStep)
  then show ?thesis by (simp add: processIncomingCars_eq Let_def)
qed

lemma ovens_processMainLine: "ovens (processMainLine s) = ovens s"
proof (cases "currentCar (mainLine s)")
  case None
  from processMainLine_empty_slot [OF None] show ?thesis by auto
next
  case (Some car)
  then show ?thesis by (simp add: processMainLine_occupied)
qed

lemma ovens_tick: "ovens (tick inp s) = ovens s"
  by (simp add: tick_def Let_def ovens_unchanged ovens_processMainLine ovens_processIncomingCars)

lemma reachable_ovens:
  "reachable s \<Longrightarrow> ovenStatus (ovens s ov) = OvenActive"
proof (induction rule: reachable.induct)
  case (constructed ri)
  show ?case by (cases ov) (simp_all add: reset_def)
next
  case (after_event s e)
  show ?case
  proof (cases e)
    case (Reset ri)
    then show ?thesis by (cases ov) (simp_all add: reset_def)
  qed (use after_event in \<open>simp_all add: ovens_tick ovens_unchanged start_def pause_def\<close>)
qed

lemma pushCar_changes: "lines (pushCar l car s) \<noteq> lines s"
proof
  assume "lines (pushCar l car s) = lines s"
  then have "cars (lines (pushCar l car s) l) = cars (lines s l)" by simp
  then show False by (simp add: pushCar_def)
qed

lemma placeCar_fails:
  assumes "findBestLine car O1 s = None" and "findBestLine car O2 s = None"
  shows "lines (placeCar car coin s) = lines s \<and> carBuffer (placeCar car coin s) = car # carBuffer s \<and>
         ovens (placeCar car coin s) = ovens s"
  using assms by (simp add: placeCar_def Let_def alternateOven_def unshiftCar_def)

lemma placeCar_unchanged_lines:
  assumes "ovenStatus (ovens s O1) = OvenActive" and "ovenStatus (ovens s O2) = OvenActive"
    and "lines (placeCar car coin s) = lines s"
  shows "findBestLine car O1 s = None \<and> findBestLine car O2 s = None"
proof (rule ccontr)
  assume "\<not> ?thesis"
  then have "findBestLine car O1 s \<noteq> None \<or> findBestLine car O2 s \<noteq> None" by simp
  then obtain ov l where "findBestLine car ov s = Some l" by auto
  then have "\<exists>k. placeCar car coin s = pushCar k car s"
    using assms(1,2)
    by (cases ov; cases coin)
       (auto simp: placeCar_def Let_def alternateOven_def split: option.splits)
  with assms(3) show False using pushCar_changes by metis
qed

lemma incomingStep_outcome:
  assumes "carBuffer s = car # rest"
  shows "(lines (incomingStep coin s) = lines s \<and> carBuffer (incomingStep coin s) = car # rest) \<or>
         (\<exists>l. lines (incomingStep coin s) =
                (lines s)(l := (lines s l)\<lparr>cars := cars (lines s l) @ [car]\<rparr>) \<and>
              carBuffer (incomingStep coin s) = rest)"
proof -
  let ?t = "s\<lparr>carBuffer := rest\<rparr>"
  have step: "incomingStep coin s = placeCar car coin ?t" using assms by (simp add: incomingStep_def)
  from placeCar_cases [of car coin ?t] show ?thesis
    unfolding step by (auto simp: unshiftCar_def pushCar_def)
qed

lemma incomingStep_fails_again:
  assumes "carBuffer t = car # rest"
    and "findBestLine car O1 t = None" and "findBestLine car O2 t = None"
  shows "carBuffer (incomingStep coin t) = car # rest \<and> lines (incomingStep coin t) = lines t"
proof -
  let ?u = "t\<lparr>carBuffer := rest\<rparr>"
  have "findBestLine car O1 ?u = None" "findBestLine car O2 ?u = None"
    using assms(2,3) findBestLine_lines_cong [of ?u t] by simp_all
  from placeCar_fails [OF this, of coin] show ?thesis
    using assms(1) by (simp add: incomingStep_def)
qed

lemma processIncomingCars_nonempty:
  assumes "carBuffer s \<noteq> []"
  shows "\<exists>xs. processIncomingCars coins s =
     (fold (\<lambda>i. incomingStep (coins i)) xs s)
       \<lparr>lines := (\<lambda>l. refreshed (lines (fold (\<lambda>i. incomingStep (coins i)) xs s) l))\<rparr>"
proof -
  have "processIncomingCars coins s =
     (fold (\<lambda>i. incomingStep (coins i)) [0..<min 2 (length (carBuffer s))] s)
       \<lparr>lines := (\<lambda>l. refreshed (lines (fold (\<lambda>i. incomingStep (coins i))
          [0..<min 2 (length (carBuffer s))] s) l))\<rparr>"
    unfolding processIncomingCars_eq Let_def using assms by (simp only: if_False)
  then show ?thesis by blast
qed

lemma failed_car_stays:
  assumes "ovenStatus (ovens s O1) = OvenActive" and "ovenStatus (ovens s O2) = OvenActive"
    and "carBuffer s = car # rest" and "lines (incomingStep (coins 0) s) = lines s"
  shows "carBuffer (processIncomingCars coins s) = car # rest \<and>
         (\<forall>l. cars (lines (processIncomingCars coins s) l) = cars (lines s l))"
proof -
  let ?t = "s\<lparr>carBuffer := rest\<rparr>"
  have "lines (placeCar car (coins 0) ?t) = lines ?t"
    using assms(3,4) by (simp add: incomingStep_def)
  from placeCar_unchanged_lines [OF _ _ this] assms(1,2)
  have "findBestLine car O1 ?t = None \<and> findBestLine car O2 ?t = None" by simp
  then have none: "findBestLine car O1 s = None" "findBestLine car O2 s = None"
    using findBestLine_lines_cong [of ?t s] by simp_all
  have "carBuffer (fold (\<lambda>i. incomingStep (coins i)) xs s) = car # rest \<and>
        lines (fold (\<lambda>i. incomingStep (coins i)) xs s) = lines s" for xs
  proof (rule fold_invariant [where P = "\<lambda>t. carBuffer t = car # rest \<and> lines t = lines s"])
    fix x and t :: simulator
    assume t: "carBuffer t = car # rest \<and> lines t = lines s"
    then have "findBestLine car O1 t = None" "findBestLine car O2 t = None"
      using none findBestLine_lines_cong [of t s] by simp_all
    from incomingStep_fails_again [OF _ this, of rest "coins x"] t
    show "carBuffer (incomingStep (coins x) t) = car # rest \<and>
          lines (incomingStep (coins x) t) = lines s" by simp
  qed (simp add: assms(3))
  moreover from assms(3) have "carBuffer s \<noteq> []" by simp
  from processIncomingCars_nonempty [OF this, of coins] obtain xs where
    "processIncomingCars coins s =
     (fold (\<lambda>i. incomingStep (coins i)) xs s)
       \<lparr>lines := (\<lambda>l. refreshed (lines (fold (\<lambda>i. incomingStep (coins i)) xs s) l))\<rparr>"
    by blast
  ultimately show ?thesis by simp
qed

lemma processIncomingCars_unfold:
  "carBuffer s = [car] \<Longrightarrow>
     processIncomingCars coins s = fold refreshStatus lineIds (incomingStep (coins 0) s)"
  "carBuffer s = car # car' # rest \<Longrightarrow>
     processIncomingCars coins s =
       fold refreshStatus lineIds (incomingStep (coins 1) (incomingStep (coins 0) s))"
proof -
  have "[0..<2] = [0, 1]" by (simp add: upt_rec)
  then show "carBuffer s = car # car' # rest \<Longrightarrow>
     processIncomingCars coins s =
       fold refreshStatus lineIds (incomingStep (coins 1) (incomingStep (coins 0) s))"
    by (simp add: processIncomingCars_def)
qed (simp add: processIncomingCars_def)

lemma blocked_no_lane:
  "findBestLine C1 O1 blockedState = None" "findBestLine C1 O2 blockedState = None"
  by code_simp+

lemma blocked_attempt:
  "incomingStep coin (blockedState\<lparr>activeAlerts := a\<rparr>) = blockedState\<lparr>activeAlerts := a + 1\<rparr>"
proof -
  let ?u = "blockedState\<lparr>activeAlerts := a, carBuffer := [C2]\<rparr>"
  have none: "findBestLine C1 O1 ?u = None" "findBestLine C1 O2 ?u = None"
    using blocked_no_lane findBestLine_lines_cong [of ?u blockedState] by simp_all
  have buf: "carBuffer blockedState = [C1, C2]" by (simp add: blockedState_def)
  have ov: "ovenStatus (ovens blockedState O1) = OvenActive"
    "ovenStatus (ovens blockedState O2) = OvenActive"
    by (simp_all add: blockedState_def start_def reset_def)
  show ?thesis
    using buf none ov
    by (simp add: incomingStep_def placeCar_def Let_def unshiftCar_def alternateOven_def)
qed

lemma blocked_first_attempt:
  "incomingStep True blockedState = blockedState\<lparr>activeAlerts := activeAlerts blockedState + 1\<rparr>"
  using blocked_attempt [of True "activeAlerts blockedState"] by simp

lemma incomingStep_failed:
  assumes "carBuffer s = car # rest" and "lines (incomingStep coin s) = lines s"
  shows "carBuffer (incomingStep coin s) = car # rest"
proof -
  from incomingStep_outcome [OF assms(1), of coin]
  show ?thesis
  proof
    assume "\<exists>l. lines (incomingStep coin s) =
                (lines s)(l := (lines s l)\<lparr>cars := cars (lines s l) @ [car]\<rparr>) \<and>
              carBuffer (incomingStep coin s) = rest"
    then obtain l where "lines (incomingStep coin s) =
        (lines s)(l := (lines s l)\<lparr>cars := cars (lines s l) @ [car]\<rparr>)" by blast
    with assms(2) have "lines s l = (lines s l)\<lparr>cars := cars (lines s l) @ [car]\<rparr>"
      by (metis fun_upd_same)
    then have "cars (lines s l) = cars ((lines s l)\<lparr>cars := cars (lines s l) @ [car]\<rparr>)"
      by (rule arg_cong)
    then show ?thesis by simp
  qed simp
qed

lemma incomingStep_placed:
  assumes "carBuffer s = car # rest" and "lines (incomingStep coin s) \<noteq> lines s"
  shows "carBuffer (incomingStep coin s) = rest"
  using incomingStep_outcome [OF assms(1), of coin] assms(2) by blast

lemma second_car_stays:
  assumes "carBuffer s = car # car' # rest"
    and "lines (incomingStep (coins 0) s) \<noteq> lines s"
    and "lines (incomingStep (coins 1) (incomingStep (coins 0) s)) = lines (incomingStep (coins 0) s)"
  shows "carBuffer (processIncomingCars coins s) = car' # rest"
proof -
  have 1: "carBuffer (incomingStep (coins 0) s) = car' # rest"
    using assms(1,2) by (rule incomingStep_placed)
  have "carBuffer (incomingStep (coins 1) (incomingStep (coins 0) s)) = car' # rest"
    using 1 assms(3) by (rule incomingStep_failed)
  then show ?thesis
    by (simp add: processIncomingCars_unfold(2) [OF assms(1)] refresh_all)
qed


text \<open>
  Claim C9 says that a car whose allocation failed is not dequeued or attempted again in
  the same tick. The loop of \<open>processIncomingCars\<close> runs its second iteration all the
  same, and \<open>shift\<close> then takes the car that \<open>unshift\<close> has just put back. In
  \<open>blockedState\<close> the backlog is C1, C2 and no lane can take a car: the first iteration
  takes C1, fails and puts it back (one alert); the second iteration finds C1 at the
  front again, fails again (a second alert); C2 never leaves the backlog.
\<close>

theorem requeue_front_counterexample:
  "carBuffer blockedState = [C1, C2] \<and>
   lines (incomingStep True blockedState) = lines blockedState \<and>
   carBuffer (incomingStep True blockedState) = [C1, C2] \<and>
   activeAlerts (incomingStep True blockedState) = activeAlerts blockedState + 1 \<and>
   hd (carBuffer (incomingStep True blockedState)) = C1 \<and>
   processIncomingCars even blockedState =
     fold refreshStatus lineIds (incomingStep False (incomingStep True blockedState)) \<and>
   activeAlerts (processIncomingCars even blockedState) = activeAlerts blockedState + 2 \<and>
   carBuffer (processIncomingCars even blockedState) = [C1, C2]"
proof -
  have buf: "carBuffer blockedState = [C1, C2]" by (simp add: blockedState_def)
  have 1: "lines (incomingStep True blockedState) = lines blockedState"
    "carBuffer (incomingStep True blockedState) = [C1, C2]"
    "activeAlerts (incomingStep True blockedState) = activeAlerts blockedState + 1"
    "hd (carBuffer (incomingStep True blockedState)) = C1"
    unfolding blocked_first_attempt using buf by simp_all
  have 3: "processIncomingCars even blockedState =
     fold refreshStatus lineIds (incomingStep False (incomingStep True blockedState))"
    using processIncomingCars_unfold(2) [OF buf, of even] by simp
  have 4: "incomingStep False (incomingStep True blockedState) =
      blockedState\<lparr>activeAlerts := activeAlerts blockedState + 2\<rparr>"
    unfolding blocked_first_attempt blocked_attempt by simp
  have 5: "activeAlerts (processIncomingCars even blockedState) = activeAlerts blockedState + 2"
    and 6: "carBuffer (processIncomingCars even blockedState) = [C1, C2]"
    unfolding 3 4 using buf by (simp_all add: refresh_all)
  from buf 1 3 5 6 show ?thesis by blast
qed

text \<open>
  Claim C9, amended. When the allocation of a dequeued car fails, no lane changes and the
  car is back at the front of the backlog, the cars behind it in their order; when it
  succeeds, one lane gets the car at its end and the backlog is what was behind the car.
  With both ovens active (as in every reachable state, also after the breakdown roll), a
  car whose allocation failed in the first iteration is placed in no lane during that
  tick: after \<open>processIncomingCars\<close> the backlog is as it was and so is every lane's queue.
  A car whose allocation failed in the second iteration, after the first car was placed,
  is at the front of the backlog after \<open>processIncomingCars\<close>.
\<close>

theorem requeue_front:
  "(carBuffer s = car # rest \<longrightarrow>
      (lines (incomingStep coin s) = lines s \<and> carBuffer (incomingStep coin s) = car # rest) \<or>
      (\<exists>l. lines (incomingStep coin s) =
             (lines s)(l := (lines s l)\<lparr>cars := cars (lines s l) @ [car]\<rparr>) \<and>
           carBuffer (incomingStep coin s) = rest)) \<and>
   (ovenStatus (ovens s O1) = OvenActive \<and> ovenStatus (ovens s O2) = OvenActive \<and>
    carBuffer s = car # rest \<and> lines (incomingStep (coins 0) s) = lines s \<longrightarrow>
      carBuffer (processIncomingCars coins s) = car # rest \<and>
      (\<forall>l. cars (lines (processIncomingCars coins s) l) = cars (lines s l))) \<and>
   (carBuffer s = car # car' # rest' \<and> lines (incomingStep (coins 0) s) \<noteq> lines s \<and>
    lines (incomingStep (coins 1) (incomingStep (coins 0) s)) = lines (incomingStep (coins 0) s)
      \<longrightarrow> carBuffer (processIncomingCars coins s) = car' # rest') \<and>
   (reachable t \<longrightarrow>
      ovenStatus (ovens t O1) = OvenActive \<and> ovenStatus (ovens t O2) = OvenActive \<and>
      ovens (simulateBreakdown r now t) = ovens t)"
  using incomingStep_outcome [of s car rest coin] failed_car_stays [of s car rest coins]
    second_car_stays [of s car car' rest' coins]
    reachable_ovens [of t] ovens_unchanged(1) [of r now t]
  by blast

theorem requeue_front_witness:
  "carBuffer blockedState = [C1, C2] \<and>
   ovenStatus (ovens blockedState O1) = OvenActive \<and>
   ovenStatus (ovens blockedState O2) = OvenActive \<and>
   lines (incomingStep (even 0) blockedState) = lines blockedState \<and>
   carBuffer (incomingStep True blockedState) = [C1, C2] \<and>
   carBuffer (processIncomingCars even blockedState) = [C1, C2] \<and>
   cars (lines (processIncomingCars even blockedState) L8) = cars (lines blockedState L8) \<and>
   carBuffer oneSlotState = [C1, C2] \<and>
   cars (lines (incomingStep (even 0) oneSlotState) L1) = replicate 13 C4 @ [C1] \<and>
   carBuffer (processIncomingCars even oneSlotState) = [C2] \<and>
   reachable (reset exampleReset) \<and>
   ovenStatus (ovens (reset exampleReset) O1) = OvenActive"
proof -
  have buf: "carBuffer blockedState = [C1, C2]" by (simp add: blockedState_def)
  have ov: "ovenStatus (ovens blockedState O1) = OvenActive"
    "ovenStatus (ovens blockedState O2) = OvenActive"
    by (simp_all add: blockedState_def start_def reset_def)
  have fail: "lines (incomingStep (even 0) blockedState) = lines blockedState"
    by (simp add: blocked_first_attempt)
  have fail': "lines (incomingStep True blockedState) = lines blockedState"
    by (simp add: blocked_first_attempt)
  have r: "reachable (reset exampleReset)" by (rule reachable.constructed)
  note inst = requeue_front [where s = blockedState and car = C1 and rest = "[C2]"
      and coins = even and coin = True and t = "reset exampleReset"]
  from inst [THEN conjunct1, THEN mp, OF buf] fail'
  have 1: "carBuffer (incomingStep True blockedState) = [C1, C2]"
    using incomingStep_failed [OF buf fail'] by simp
  from inst [THEN conjunct2, THEN conjunct1, THEN mp] buf ov fail
  have 2: "carBuffer (processIncomingCars even blockedState) = [C1, C2]"
    and 3: "cars (lines (processIncomingCars even blockedState) L8) = cars (lines blockedState L8)"
    by simp_all
  from inst [THEN conjunct2, THEN conjunct2, THEN conjunct2, THEN mp, OF r]
  have 4: "ovenStatus (ovens (reset exampleReset) O1) = OvenActive" by simp
  have buf1: "carBuffer oneSlotState = [C1, C2]"
    by (simp add: oneSlotState_def blockedState_def)
  have pushed: "cars (lines (incomingStep True oneSlotState) L1) = replicate 13 C4 @ [C1]"
    by code_simp
  have before: "cars (lines oneSlotState L1) = replicate 13 C4"
    by (simp add: oneSlotState_def)
  have placed: "lines (incomingStep (even 0) oneSlotState) \<noteq> lines oneSlotState"
  proof
    assume "lines (incomingStep (even 0) oneSlotState) = lines oneSlotState"
    then have "cars (lines (incomingStep True oneSlotState) L1) = cars (lines oneSlotState L1)"
      by simp
    with pushed before show False by simp
  qed
  have rest1: "carBuffer (incomingStep True oneSlotState) = [C2]" by code_simp
  have none: "findBestLine C2 O1 (incomingStep True oneSlotState) = None"
    "findBestLine C2 O2 (incomingStep True oneSlotState) = None"
    by code_simp+
  from incomingStep_fails_again [OF rest1 none, of False]
  have again: "lines (incomingStep (even 1) (incomingStep (even 0) oneSlotState)) =
      lines (incomingStep (even 0) oneSlotState)"
    by simp
  from requeue_front [where s = oneSlotState and car = C1 and car' = C2 and rest' = "[]"
      and coins = even, THEN conjunct2, THEN conjunct2, THEN conjunct1, THEN mp]
    buf1 placed again
  have 5: "carBuffer (processIncomingCars even oneSlotState) = [C2]" by simp
  have 6: "cars (lines (incomingStep (even 0) oneSlotState) L1) = replicate 13 C4 @ [C1]"
    using pushed by simp
  from buf ov fail 1 2 3 buf1 6 5 r 4 show ?thesis by blast
qed

end
